theory Spec2Isabelle
  imports Complex_Main "HOL-Library.Sublist" "HOL-Library.Product_Lexorder"
    "HOL-Library.Multiset"
begin

section \<open>Go strings\<close>

text \<open>
  A Go string is a byte sequence that the \<^verbatim>\<open>strings\<close>, \<^verbatim>\<open>unicode\<close> and \<^verbatim>\<open>regexp\<close>
  packages read as a sequence of runes (code points, an invalid byte being read as
  U+FFFD). The model keeps the decoded form: a string is the list of its runes, each a
  natural number. \<open>len\<close> is Go's \<^verbatim>\<open>len\<close>, the number of bytes of the UTF-8 encoding.
\<close>

type_synonym rune = nat
type_synonym gostring = "rune list"

definition str :: "string \<Rightarrow> gostring" where
  "str s = map of_char s"

definition utf8_width :: "rune \<Rightarrow> nat" where
  "utf8_width r = (if r < 128 then 1 else if r < 2048 then 2 else if r < 65536 then 3 else 4)"

definition len :: "gostring \<Rightarrow> nat" where
  "len s = sum_list (map utf8_width s)"

text \<open>\<^verbatim>\<open>unicode.IsSpace\<close>: the Latin-1 spaces and the runes of category White_Space.\<close>

definition is_space :: "rune \<Rightarrow> bool" where
  "is_space r \<longleftrightarrow>
     r = 9 \<or> r = 10 \<or> r = 11 \<or> r = 12 \<or> r = 13 \<or> r = 32 \<or> r = 133 \<or> r = 160 \<or>
     r = 5760 \<or> (8192 \<le> r \<and> r \<le> 8202) \<or> r = 8232 \<or> r = 8233 \<or> r = 8239 \<or>
     r = 8287 \<or> r = 12288"

text \<open>
  \<^verbatim>\<open>unicode.ToLower\<close>: ASCII is handled in the function itself, every other rune goes
  through the case tables of the Unicode database, which are a parameter \<open>tbl\<close> here.
\<close>

definition unicode_ToLower :: "(rune \<Rightarrow> rune) \<Rightarrow> rune \<Rightarrow> rune" where
  "unicode_ToLower tbl r =
     (if r \<le> 127 then (if 65 \<le> r \<and> r \<le> 90 then r + 32 else r) else tbl r)"

definition ToLower :: "(rune \<Rightarrow> rune) \<Rightarrow> gostring \<Rightarrow> gostring" where
  "ToLower tbl s = map (unicode_ToLower tbl) s"

text \<open>\<^verbatim>\<open>strings.TrimSpace\<close>, \<^verbatim>\<open>strings.Trim\<close> with a cutset, \<^verbatim>\<open>strings.TrimSuffix\<close>.\<close>

definition TrimFunc :: "(rune \<Rightarrow> bool) \<Rightarrow> gostring \<Rightarrow> gostring" where
  "TrimFunc f s = rev (dropWhile f (rev (dropWhile f s)))"

definition TrimSpace :: "gostring \<Rightarrow> gostring" where
  "TrimSpace s = TrimFunc is_space s"

definition Trim :: "gostring \<Rightarrow> gostring \<Rightarrow> gostring" where
  "Trim s cutset = TrimFunc (\<lambda>r. r \<in> set cutset) s"

definition TrimSuffix :: "gostring \<Rightarrow> gostring \<Rightarrow> gostring" where
  "TrimSuffix s suf =
     (if length suf \<le> length s \<and> drop (length s - length suf) s = suf
      then take (length s - length suf) s else s)"

text \<open>
  \<^verbatim>\<open>regexp.ReplaceAllString\<close> for a pattern of the shape \<^verbatim>\<open>[class]+\<close>: every maximal run
  of runes of the class is replaced by \<open>repl\<close>.
\<close>

function ReplaceAllRuns :: "(rune \<Rightarrow> bool) \<Rightarrow> gostring \<Rightarrow> gostring \<Rightarrow> gostring" where
  "ReplaceAllRuns cls repl [] = []"
| "ReplaceAllRuns cls repl (r # rs) =
     (if cls r then repl @ ReplaceAllRuns cls repl (dropWhile cls rs)
      else r # ReplaceAllRuns cls repl rs)"
  by pat_completeness auto
termination
  by (relation "measure (\<lambda>(cls, repl, s). length s)")
     (auto simp: length_dropWhile_le less_Suc_eq_le)

section \<open>Slug generation (internal/utils/slug.go)\<close>

definition is_lower_alnum :: "rune \<Rightarrow> bool" where
  "is_lower_alnum r \<longleftrightarrow> (97 \<le> r \<and> r \<le> 122) \<or> (48 \<le> r \<and> r \<le> 57)"

definition dash :: rune where
  "dash = 45"

text \<open>
  After the replacement and the trim the slug holds ASCII only, so its byte length and
  its byte slice \<^verbatim>\<open>slug[:100]\<close> are the rune count and the first 100 runes.
\<close>

definition GenerateSlug :: "(rune \<Rightarrow> rune) \<Rightarrow> gostring \<Rightarrow> gostring" where
  "GenerateSlug tbl text =
     (let slug = ToLower tbl text;
          slug = ReplaceAllRuns (\<lambda>r. \<not> is_lower_alnum r) [dash] slug;
          slug = Trim slug [dash]
      in if length slug > 100 then TrimSuffix (take 100 slug) [dash] else slug)"


text \<open>The slug before the cut to 100 characters.\<close>

definition trimmed :: "(rune \<Rightarrow> rune) \<Rightarrow> gostring \<Rightarrow> gostring" where
  "trimmed tbl text =
     Trim (ReplaceAllRuns (\<lambda>r. \<not> is_lower_alnum r) [dash] (ToLower tbl text)) [dash]"

section \<open>Errors, time, models\<close>

text \<open>
  \<open>Err\<close> is \<^verbatim>\<open>errors.New\<close>, \<open>Errf\<close> a message formatted with a name, \<open>Wrap\<close> and
  \<open>WrapName\<close> are \<^verbatim>\<open>fmt.Errorf\<close> with \<^verbatim>\<open>%w\<close>. \<open>ErrRecordNotFound\<close> is
  \<^verbatim>\<open>gorm.ErrRecordNotFound\<close>; \<open>ErrDatabase\<close> stands for every other error of the
  persistence layer. A time is a count of nanoseconds.
\<close>

datatype error =
    ErrRecordNotFound
  | ErrDatabase
  | Err string
  | Errf string gostring
  | Wrap string error
  | WrapName string gostring error

type_synonym time = int

definition StatusDraft :: gostring where
  "StatusDraft = str ''draft''"

definition StatusPublished :: gostring where
  "StatusPublished = str ''published''"

definition StatusArchived :: gostring where
  "StatusArchived = str ''archived''"

record Tag =
  Tag_ID :: nat
  Tag_Name :: gostring
  Tag_Slug :: gostring

text \<open>
  The Article model with its foreign keys; the preloaded Author and Category structs and
  the Comments and Likes associations are left out.
\<close>

record Article =
  ID :: nat
  Title :: gostring
  Slug :: gostring
  Content :: gostring
  Excerpt :: gostring
  AuthorID :: nat
  CategoryID :: "nat option"
  Tags :: "Tag list"
  Status :: gostring
  ViewCount :: nat
  LikeCount :: nat
  CommentCount :: nat
  PublishedAt :: "time option"
  CreatedAt :: time
  DeletedAt :: "time option"

subsection \<open>Model hooks (internal/models/article.go, the Tag model)\<close>

definition validateTitle :: "Article \<Rightarrow> error option" where
  "validateTitle a =
     (let title = TrimSpace (Title a) in
      if title \<noteq> Title a then Some (Err ''title cannot have leading or trailing spaces'')
      else if 10 \<in> set title \<or> 13 \<in> set title then Some (Err ''title cannot contain line breaks'')
      else None)"

definition validateContent :: "Article \<Rightarrow> error option" where
  "validateContent a =
     (let content = TrimSpace (Content a) in
      if len content = 0 then Some (Err ''content cannot be empty or contain only whitespace'')
      else None)"

text \<open>\<^verbatim>\<open>validatePublishedStatus\<close> never fails; it fills in a missing timestamp.\<close>

definition validatePublishedStatus :: "time \<Rightarrow> Article \<Rightarrow> Article" where
  "validatePublishedStatus now a =
     (if Status a = StatusPublished then
        (if PublishedAt a = None then a\<lparr>PublishedAt := Some now\<rparr> else a)
      else a)"

text \<open>
  \<^verbatim>\<open>Article.Validate\<close>, run by the BeforeCreate and BeforeUpdate hooks. Its first step,
  \<^verbatim>\<open>ValidateStruct\<close>, is decided by the struct validator over fields this model does not
  carry (the nested Author and Category); a failure there is one of the failures of the
  repository call, see \<open>call\<close> below.
\<close>

definition Validate :: "time \<Rightarrow> Article \<Rightarrow> error + Article" where
  "Validate now a =
     (case validateTitle a of
        Some e \<Rightarrow> Inl e
      | None \<Rightarrow>
          (case validateContent a of
             Some e \<Rightarrow> Inl e
           | None \<Rightarrow> Inr (validatePublishedStatus now a)))"

definition tag_name_rune :: "rune \<Rightarrow> bool" where
  "tag_name_rune c \<longleftrightarrow>
     (97 \<le> c \<and> c \<le> 122) \<or> (65 \<le> c \<and> c \<le> 90) \<or> (48 \<le> c \<and> c \<le> 57) \<or>
     c = 45 \<or> c = 95 \<or> c = 32"

definition validateName :: "Tag \<Rightarrow> error option" where
  "validateName t =
     (let name = TrimSpace (Tag_Name t) in
      if name \<noteq> Tag_Name t then Some (Err ''name cannot have leading or trailing spaces'')
      else if 10 \<in> set name \<or> 13 \<in> set name then Some (Err ''name cannot contain line breaks'')
      else if \<not> list_all tag_name_rune name
        then Some (Err ''tag name can only contain letters, numbers, spaces, hyphens, and underscores'')
      else None)"

section \<open>The persistence collaborator\<close>

text \<open>
  The services talk to repositories backed by a relational store. The store is modelled
  by its tables; \<open>calls\<close> is the log of the repository calls made so far, and \<open>faults\<close>
  is the schedule of failures: each repository call consumes one flag, and a call whose
  flag is set fails (connection error, constraint violation, struct validation in a hook)
  and changes no table. An empty schedule means no further failure.
\<close>

datatype repo_call =
    ArticleCreate
  | ArticleGetByID nat
  | ArticleGetBySlug gostring
  | ArticleUpdate nat
  | ArticleAdvancedSearch gostring
  | ArticleSearchWithBoolean gostring
  | UserGetByID nat
  | CategoryGetByID nat
  | TagCreate gostring
  | TagGetByName gostring
  | TagGetBySlug gostring

record db =
  articles :: "Article list"
  tags :: "Tag list"
  users :: "nat list"
  categories :: "nat list"
  next_article_id :: nat
  next_tag_id :: nat
  faults :: "bool list"
  calls :: "repo_call list"

definition call :: "repo_call \<Rightarrow> db \<Rightarrow> bool \<times> db" where
  "call c d =
     (case faults d of
        [] \<Rightarrow> (False, d\<lparr>calls := calls d @ [c]\<rparr>)
      | f # fs \<Rightarrow> (f, d\<lparr>faults := fs, calls := calls d @ [c]\<rparr>))"

text \<open>\<^verbatim>\<open>First\<close> on a soft-deleting model skips the deleted rows.\<close>

definition articleRepo_GetByID :: "nat \<Rightarrow> db \<Rightarrow> (error + Article) \<times> db" where
  "articleRepo_GetByID i d =
     (case call (ArticleGetByID i) d of
        (True, d') \<Rightarrow> (Inl ErrDatabase, d')
      | (False, d') \<Rightarrow>
          (case find (\<lambda>a. ID a = i \<and> DeletedAt a = None) (articles d') of
             None \<Rightarrow> (Inl ErrRecordNotFound, d')
           | Some a \<Rightarrow> (Inr a, d')))"

definition articleRepo_GetBySlug :: "gostring \<Rightarrow> db \<Rightarrow> (error + Article) \<times> db" where
  "articleRepo_GetBySlug slug d =
     (case call (ArticleGetBySlug slug) d of
        (True, d') \<Rightarrow> (Inl ErrDatabase, d')
      | (False, d') \<Rightarrow>
          (case find (\<lambda>a. Slug a = slug \<and> DeletedAt a = None) (articles d') of
             None \<Rightarrow> (Inl ErrRecordNotFound, d')
           | Some a \<Rightarrow> (Inr a, d')))"

text \<open>
  \<^verbatim>\<open>Create\<close> runs the BeforeCreate hook, then inserts the row under a fresh key. The Go
  code fills the key into the caller's struct; the model returns the stored article.
\<close>

definition articleRepo_Create :: "time \<Rightarrow> Article \<Rightarrow> db \<Rightarrow> (error + Article) \<times> db" where
  "articleRepo_Create now a d =
     (case call ArticleCreate d of
        (True, d') \<Rightarrow> (Inl ErrDatabase, d')
      | (False, d') \<Rightarrow>
          (case Validate now a of
             Inl e \<Rightarrow> (Inl e, d')
           | Inr a' \<Rightarrow>
               (let row = a'\<lparr>ID := next_article_id d', CreatedAt := now\<rparr> in
                (Inr row, d'\<lparr>articles := articles d' @ [row],
                              next_article_id := next_article_id d' + 1\<rparr>))))"

text \<open>
  \<^verbatim>\<open>Update\<close> is \<^verbatim>\<open>Save\<close>: after the BeforeUpdate hook, the row with the article's key
  is overwritten, and the article is inserted if there is no such row.
\<close>

definition save_row :: "Article \<Rightarrow> Article list \<Rightarrow> Article list" where
  "save_row a rows =
     (if list_ex (\<lambda>r. ID r = ID a) rows then map (\<lambda>r. if ID r = ID a then a else r) rows
      else rows @ [a])"

definition articleRepo_Update :: "time \<Rightarrow> Article \<Rightarrow> db \<Rightarrow> (error + Article) \<times> db" where
  "articleRepo_Update now a d =
     (case call (ArticleUpdate (ID a)) d of
        (True, d') \<Rightarrow> (Inl ErrDatabase, d')
      | (False, d') \<Rightarrow>
          (case Validate now a of
             Inl e \<Rightarrow> (Inl e, d')
           | Inr a' \<Rightarrow> (Inr a', d'\<lparr>articles := save_row a' (articles d')\<rparr>)))"

definition userRepo_GetByID :: "nat \<Rightarrow> db \<Rightarrow> (error + nat) \<times> db" where
  "userRepo_GetByID i d =
     (case call (UserGetByID i) d of
        (True, d') \<Rightarrow> (Inl ErrDatabase, d')
      | (False, d') \<Rightarrow>
          (if i \<in> set (users d') then (Inr i, d') else (Inl ErrRecordNotFound, d')))"

definition categoryRepo_GetByID :: "nat \<Rightarrow> db \<Rightarrow> (error + nat) \<times> db" where
  "categoryRepo_GetByID i d =
     (case call (CategoryGetByID i) d of
        (True, d') \<Rightarrow> (Inl ErrDatabase, d')
      | (False, d') \<Rightarrow>
          (if i \<in> set (categories d') then (Inr i, d') else (Inl ErrRecordNotFound, d')))"

definition tagRepo_GetByName :: "gostring \<Rightarrow> db \<Rightarrow> (error + Tag) \<times> db" where
  "tagRepo_GetByName name d =
     (case call (TagGetByName name) d of
        (True, d') \<Rightarrow> (Inl ErrDatabase, d')
      | (False, d') \<Rightarrow>
          (case find (\<lambda>t. Tag_Name t = name) (tags d') of
             None \<Rightarrow> (Inl ErrRecordNotFound, d')
           | Some t \<Rightarrow> (Inr t, d')))"

definition tagRepo_GetBySlug :: "gostring \<Rightarrow> db \<Rightarrow> (error + Tag) \<times> db" where
  "tagRepo_GetBySlug slug d =
     (case call (TagGetBySlug slug) d of
        (True, d') \<Rightarrow> (Inl ErrDatabase, d')
      | (False, d') \<Rightarrow>
          (case find (\<lambda>t. Tag_Slug t = slug) (tags d') of
             None \<Rightarrow> (Inl ErrRecordNotFound, d')
           | Some t \<Rightarrow> (Inr t, d')))"

definition tagRepo_Create :: "Tag \<Rightarrow> db \<Rightarrow> (error + Tag) \<times> db" where
  "tagRepo_Create t d =
     (case call (TagCreate (Tag_Name t)) d of
        (True, d') \<Rightarrow> (Inl ErrDatabase, d')
      | (False, d') \<Rightarrow>
          (case validateName t of
             Some e \<Rightarrow> (Inl e, d')
           | None \<Rightarrow>
               (let row = t\<lparr>Tag_ID := next_tag_id d'\<rparr> in
                (Inr row, d'\<lparr>tags := tags d' @ [row], next_tag_id := next_tag_id d' + 1\<rparr>))))"

section \<open>Unique slugs (tag_service.go, article_service.go)\<close>

text \<open>\<^verbatim>\<open>%d\<close> of a non-negative counter: its decimal digits.\<close>

function itoa :: "nat \<Rightarrow> gostring" where
  "itoa n = (if n < 10 then [48 + n] else itoa (n div 10) @ [48 + n mod 10])"
  by pat_completeness auto
termination
  by (relation "measure (\<lambda>n. n)") auto

declare itoa.simps [simp del]

text \<open>
  The loop of \<^verbatim>\<open>generateUniqueSlug\<close>, which the tag service and the article service
  both have, over the slug lookup \<open>get\<close> of their repository. \<open>slug\<close> and \<open>counter\<close>
  are the loop's variables.
\<close>

function unique_slug_loop ::
  "(gostring \<Rightarrow> db \<Rightarrow> (error + 'a) \<times> db) \<Rightarrow> gostring \<Rightarrow> gostring \<Rightarrow> nat \<Rightarrow> db
     \<Rightarrow> (error + gostring) \<times> db" where
  "unique_slug_loop get baseSlug slug counter d =
     (case get slug d of
        (Inl err, d') \<Rightarrow>
          (if err = ErrRecordNotFound then (Inr slug, d')
           else (Inl (Wrap ''error checking slug availability'' err), d'))
      | (Inr found, d') \<Rightarrow>
          (if counter + 1 > 1000 then (Inl (Err ''unable to generate unique slug''), d')
           else unique_slug_loop get baseSlug (baseSlug @ [dash] @ itoa counter) (counter + 1) d'))"
  by pat_completeness auto
termination
  by (relation "measure (\<lambda>(get, baseSlug, slug, counter, d). 1001 - counter)") auto

declare unique_slug_loop.simps [simp del]

definition TagService_generateUniqueSlug ::
  "(rune \<Rightarrow> rune) \<Rightarrow> gostring \<Rightarrow> db \<Rightarrow> (error + gostring) \<times> db" where
  "TagService_generateUniqueSlug tbl name d =
     (let baseSlug = GenerateSlug tbl name in
      if baseSlug = [] then (Inl (Err ''cannot generate slug from name''), d)
      else unique_slug_loop tagRepo_GetBySlug baseSlug baseSlug 1 d)"

definition ArticleService_generateUniqueSlug ::
  "(rune \<Rightarrow> rune) \<Rightarrow> gostring \<Rightarrow> db \<Rightarrow> (error + gostring) \<times> db" where
  "ArticleService_generateUniqueSlug tbl title d =
     (let baseSlug = GenerateSlug tbl title in
      if baseSlug = [] then (Inl (Err ''cannot generate slug from title''), d)
      else unique_slug_loop articleRepo_GetBySlug baseSlug baseSlug 1 d)"

section \<open>Tag service (internal/services/tag_service.go)\<close>

text \<open>A request pointer is an option: \<open>None\<close> is \<^verbatim>\<open>nil\<close>.\<close>

definition TagService_validateCreateRequest :: "gostring option \<Rightarrow> error option" where
  "TagService_validateCreateRequest req =
     (case req of
        None \<Rightarrow> Some (Err ''create request is required'')
      | Some name \<Rightarrow>
          (if TrimSpace name = [] then Some (Err ''tag name is required'')
           else if len name > 50 then Some (Err ''tag name must be less than 50 characters'')
           else None))"

definition TagService_Create ::
  "(rune \<Rightarrow> rune) \<Rightarrow> gostring option \<Rightarrow> db \<Rightarrow> (error + Tag) \<times> db" where
  "TagService_Create tbl req d =
     (case TagService_validateCreateRequest req of
        Some e \<Rightarrow> (Inl e, d)
      | None \<Rightarrow>
          (let tagName = TrimSpace (case req of Some name \<Rightarrow> name | None \<Rightarrow> []) in
           case tagRepo_GetByName tagName d of
             (Inr existingTag, d1) \<Rightarrow> (Inl (Errf ''tag with name already exists'' tagName), d1)
           | (Inl err, d1) \<Rightarrow>
               (if err \<noteq> ErrRecordNotFound then (Inl (Wrap ''error checking existing tag'' err), d1)
                else
                  (case TagService_generateUniqueSlug tbl tagName d1 of
                     (Inl err, d2) \<Rightarrow> (Inl (Wrap ''failed to generate slug'' err), d2)
                   | (Inr slug, d2) \<Rightarrow>
                       (case tagRepo_Create \<lparr>Tag_ID = 0, Tag_Name = tagName, Tag_Slug = slug\<rparr> d2 of
                          (Inl err, d3) \<Rightarrow> (Inl (Wrap ''failed to create tag'' err), d3)
                        | (Inr tag, d3) \<Rightarrow> (Inr tag, d3))))))"

definition FindOrCreateByName ::
  "(rune \<Rightarrow> rune) \<Rightarrow> gostring \<Rightarrow> db \<Rightarrow> (error + Tag) \<times> db" where
  "FindOrCreateByName tbl name d =
     (let tagName = TrimSpace name in
      if tagName = [] then (Inl (Err ''tag name cannot be empty''), d)
      else
        (case tagRepo_GetByName tagName d of
           (Inr tag, d1) \<Rightarrow> (Inr tag, d1)
         | (Inl err, d1) \<Rightarrow>
             (if err \<noteq> ErrRecordNotFound then (Inl (Wrap ''error checking existing tag'' err), d1)
              else TagService_Create tbl (Some tagName) d1)))"

text \<open>
  The loop of \<^verbatim>\<open>ProcessTagNames\<close>: \<open>processedNames\<close> is the Go map used as a set,
  \<open>tags\<close> the slice built so far.
\<close>

fun ProcessTagNames_loop ::
  "(rune \<Rightarrow> rune) \<Rightarrow> gostring list \<Rightarrow> gostring set \<Rightarrow> Tag list \<Rightarrow> db
     \<Rightarrow> (error + Tag list) \<times> db" where
  "ProcessTagNames_loop tbl [] processedNames tgs d = (Inr tgs, d)"
| "ProcessTagNames_loop tbl (name # rest) processedNames tgs d =
     (let tagName = TrimSpace name in
      if tagName = [] then ProcessTagNames_loop tbl rest processedNames tgs d
      else if tagName \<in> processedNames then ProcessTagNames_loop tbl rest processedNames tgs d
      else
        (case FindOrCreateByName tbl tagName d of
           (Inl err, d') \<Rightarrow> (Inl (WrapName ''failed to process tag'' tagName err), d')
         | (Inr tag, d') \<Rightarrow>
             ProcessTagNames_loop tbl rest (insert tagName processedNames) (tgs @ [tag]) d'))"

definition ProcessTagNames ::
  "(rune \<Rightarrow> rune) \<Rightarrow> gostring list \<Rightarrow> db \<Rightarrow> (error + Tag list) \<times> db" where
  "ProcessTagNames tbl tagNames d = ProcessTagNames_loop tbl tagNames {} [] d"

section \<open>Article service (internal/services/article_service.go)\<close>

record CreateArticleRequest =
  Create_Title :: gostring
  Create_Content :: gostring
  Create_Excerpt :: gostring
  Create_CategoryID :: "nat option"
  Create_TagNames :: "gostring list"
  Create_Status :: gostring

text \<open>\<open>Update_TagNames\<close> is an option because the code tells a nil slice from an empty one.\<close>

record UpdateArticleRequest =
  Update_Title :: gostring
  Update_Content :: gostring
  Update_Excerpt :: gostring
  Update_CategoryID :: "nat option"
  Update_TagNames :: "gostring list option"
  Update_Status :: gostring

definition validateCreateRequest :: "CreateArticleRequest option \<Rightarrow> error + CreateArticleRequest" where
  "validateCreateRequest r =
     (case r of
        None \<Rightarrow> Inl (Err ''create request is required'')
      | Some req \<Rightarrow>
          (if TrimSpace (Create_Title req) = [] then Inl (Err ''title is required'')
           else if len (Create_Title req) > 255
             then Inl (Err ''title must be less than 255 characters'')
           else if TrimSpace (Create_Content req) = [] then Inl (Err ''content is required'')
           else if Create_Excerpt req \<noteq> [] \<and> len (Create_Excerpt req) > 500
             then Inl (Err ''excerpt must be less than 500 characters'')
           else if Create_Status req \<noteq> [] \<and> Create_Status req \<noteq> str ''draft''
                 \<and> Create_Status req \<noteq> str ''published''
             then Inl (Err ''status must be either draft or published'')
           else Inr req))"

definition validateUpdateRequest :: "UpdateArticleRequest option \<Rightarrow> error + UpdateArticleRequest" where
  "validateUpdateRequest r =
     (case r of
        None \<Rightarrow> Inl (Err ''update request is required'')
      | Some req \<Rightarrow>
          (if Update_Title req \<noteq> [] \<and> TrimSpace (Update_Title req) = []
             then Inl (Err ''title cannot be empty'')
           else if Update_Title req \<noteq> [] \<and> len (Update_Title req) > 255
             then Inl (Err ''title must be less than 255 characters'')
           else if Update_Content req \<noteq> [] \<and> TrimSpace (Update_Content req) = []
             then Inl (Err ''content cannot be empty'')
           else if Update_Excerpt req \<noteq> [] \<and> len (Update_Excerpt req) > 500
             then Inl (Err ''excerpt must be less than 500 characters'')
           else if Update_Status req \<noteq> []
                 \<and> Update_Status req \<notin> set [str ''draft'', str ''published'', str ''archived'']
             then Inl (Err ''status must be one of: draft, published, archived'')
           else Inr req))"

definition processTagNames ::
  "(rune \<Rightarrow> rune) \<Rightarrow> gostring list \<Rightarrow> db \<Rightarrow> (error + Tag list) \<times> db" where
  "processTagNames tbl tagNames d = ProcessTagNames tbl tagNames d"

text \<open>
  \<^verbatim>\<open>Create\<close>. \<open>now\<close> is the clock reading of the operation. The blocks of the source
  after the category lookup are functions of the article built so far: the status and
  the publishing timestamp, the tags, the insertion.
\<close>

definition Create_status :: "time \<Rightarrow> CreateArticleRequest \<Rightarrow> Article \<Rightarrow> Article" where
  "Create_status now req article =
     (let article = (if Create_Status req \<noteq> [] then article\<lparr>Status := Create_Status req\<rparr>
                     else article)
      in if Status article = StatusPublished then article\<lparr>PublishedAt := Some now\<rparr>
         else article)"

definition Create_tags ::
  "(rune \<Rightarrow> rune) \<Rightarrow> CreateArticleRequest \<Rightarrow> Article \<Rightarrow> db \<Rightarrow> (error + Article) \<times> db" where
  "Create_tags tbl req article d =
     (if length (Create_TagNames req) > 0 then
        (case processTagNames tbl (Create_TagNames req) d of
           (Inl err, d') \<Rightarrow> (Inl (Wrap ''failed to process tags'' err), d')
         | (Inr tgs, d') \<Rightarrow> (Inr (article\<lparr>Tags := tgs\<rparr>), d'))
      else (Inr article, d))"

definition Create_store ::
  "(rune \<Rightarrow> rune) \<Rightarrow> time \<Rightarrow> CreateArticleRequest \<Rightarrow> Article \<Rightarrow> db \<Rightarrow> (error + Article) \<times> db" where
  "Create_store tbl now req article d =
     (case Create_tags tbl req (Create_status now req article) d of
        (Inl err, d1) \<Rightarrow> (Inl err, d1)
      | (Inr article, d1) \<Rightarrow>
          (case articleRepo_Create now article d1 of
             (Inl err, d2) \<Rightarrow> (Inl (Wrap ''failed to create article'' err), d2)
           | (Inr created, d2) \<Rightarrow> (Inr created, d2)))"

definition Create ::
  "(rune \<Rightarrow> rune) \<Rightarrow> time \<Rightarrow> nat \<Rightarrow> CreateArticleRequest option \<Rightarrow> db \<Rightarrow> (error + Article) \<times> db" where
  "Create tbl now authorID r d =
     (case validateCreateRequest r of
        Inl err \<Rightarrow> (Inl err, d)
      | Inr req \<Rightarrow>
          (case userRepo_GetByID authorID d of
             (Inl err, d1) \<Rightarrow> (Inl (Err ''author not found''), d1)
           | (Inr author, d1) \<Rightarrow>
               (case ArticleService_generateUniqueSlug tbl (Create_Title req) d1 of
                  (Inl err, d2) \<Rightarrow> (Inl (Wrap ''failed to generate slug'' err), d2)
                | (Inr slug, d2) \<Rightarrow>
                    (let article =
                       \<lparr>ID = 0, Title = TrimSpace (Create_Title req), Slug = slug,
                        Content = TrimSpace (Create_Content req),
                        Excerpt = TrimSpace (Create_Excerpt req), AuthorID = authorID,
                        CategoryID = None, Tags = [], Status = StatusDraft, ViewCount = 0,
                        LikeCount = 0, CommentCount = 0, PublishedAt = None, CreatedAt = 0,
                        DeletedAt = None\<rparr>
                     in
                       (case Create_CategoryID req of
                          None \<Rightarrow> Create_store tbl now req article d2
                        | Some cid \<Rightarrow>
                            (case categoryRepo_GetByID cid d2 of
                               (Inl err, d3) \<Rightarrow> (Inl (Err ''category not found''), d3)
                             | (Inr category, d3) \<Rightarrow>
                                 Create_store tbl now req (article\<lparr>CategoryID := Some cid\<rparr>) d3))))))"

text \<open>
  \<^verbatim>\<open>Update\<close> changes the fetched article field by field and remembers in \<open>updated\<close>
  whether anything changed. Each block of the source is one function of the pair
  (article, updated).
\<close>

definition Update_title ::
  "(rune \<Rightarrow> rune) \<Rightarrow> UpdateArticleRequest \<Rightarrow> Article \<times> bool \<Rightarrow> db
     \<Rightarrow> (error + Article \<times> bool) \<times> db" where
  "Update_title tbl req au d =
     (case au of (article, updated) \<Rightarrow>
        if Update_Title req \<noteq> [] \<and> Update_Title req \<noteq> Title article then
          (let article = article\<lparr>Title := TrimSpace (Update_Title req)\<rparr> in
           case ArticleService_generateUniqueSlug tbl (Title article) d of
             (Inl err, d') \<Rightarrow> (Inl (Wrap ''failed to generate slug'' err), d')
           | (Inr slug, d') \<Rightarrow> (Inr (article\<lparr>Slug := slug\<rparr>, True), d'))
        else (Inr (article, updated), d))"

definition Update_content :: "UpdateArticleRequest \<Rightarrow> Article \<times> bool \<Rightarrow> Article \<times> bool" where
  "Update_content req au =
     (case au of (article, updated) \<Rightarrow>
        if Update_Content req \<noteq> [] \<and> Update_Content req \<noteq> Content article
        then (article\<lparr>Content := TrimSpace (Update_Content req)\<rparr>, True)
        else (article, updated))"

definition Update_excerpt :: "UpdateArticleRequest \<Rightarrow> Article \<times> bool \<Rightarrow> Article \<times> bool" where
  "Update_excerpt req au =
     (case au of (article, updated) \<Rightarrow>
        if Update_Excerpt req \<noteq> Excerpt article
        then (article\<lparr>Excerpt := TrimSpace (Update_Excerpt req)\<rparr>, True)
        else (article, updated))"

definition Update_category ::
  "UpdateArticleRequest \<Rightarrow> Article \<times> bool \<Rightarrow> db \<Rightarrow> (error + Article \<times> bool) \<times> db" where
  "Update_category req au d =
     (case au of (article, updated) \<Rightarrow>
        (case Update_CategoryID req of
           None \<Rightarrow> (Inr (article, updated), d)
         | Some cid \<Rightarrow>
             if (CategoryID article = None \<and> cid \<noteq> 0)
                \<or> (CategoryID article \<noteq> None \<and> CategoryID article \<noteq> Some cid) then
               (if cid = 0 then (Inr (article\<lparr>CategoryID := None\<rparr>, True), d)
                else
                  (case categoryRepo_GetByID cid d of
                     (Inl err, d') \<Rightarrow> (Inl (Err ''category not found''), d')
                   | (Inr category, d') \<Rightarrow> (Inr (article\<lparr>CategoryID := Some cid\<rparr>, True), d')))
             else (Inr (article, updated), d)))"

definition Update_status ::
  "time \<Rightarrow> UpdateArticleRequest \<Rightarrow> Article \<times> bool \<Rightarrow> Article \<times> bool" where
  "Update_status now req au =
     (case au of (article, updated) \<Rightarrow>
        if Update_Status req \<noteq> [] \<and> Status article \<noteq> Update_Status req then
          (let oldStatus = Status article;
               article = article\<lparr>Status := Update_Status req\<rparr>;
               article =
                 (if Status article = StatusPublished \<and> oldStatus \<noteq> StatusPublished then
                    (if PublishedAt article = None then article\<lparr>PublishedAt := Some now\<rparr>
                     else article)
                  else article)
           in (article, True))
        else (article, updated))"

definition Update_tags ::
  "(rune \<Rightarrow> rune) \<Rightarrow> UpdateArticleRequest \<Rightarrow> Article \<times> bool \<Rightarrow> db
     \<Rightarrow> (error + Article \<times> bool) \<times> db" where
  "Update_tags tbl req au d =
     (case au of (article, updated) \<Rightarrow>
        (case Update_TagNames req of
           None \<Rightarrow> (Inr (article, updated), d)
         | Some tagNames \<Rightarrow>
             (case processTagNames tbl tagNames d of
                (Inl err, d') \<Rightarrow> (Inl (Wrap ''failed to process tags'' err), d')
              | (Inr tgs, d') \<Rightarrow> (Inr (article\<lparr>Tags := tgs\<rparr>, True), d'))))"

definition Update_save :: "time \<Rightarrow> Article \<times> bool \<Rightarrow> db \<Rightarrow> (error + Article) \<times> db" where
  "Update_save now au d =
     (case au of (article, updated) \<Rightarrow>
        if \<not> updated then (Inr article, d)
        else
          (case articleRepo_Update now article d of
             (Inl err, d') \<Rightarrow> (Inl (Wrap ''failed to update article'' err), d')
           | (Inr saved, d') \<Rightarrow> (Inr saved, d')))"

definition Update ::
  "(rune \<Rightarrow> rune) \<Rightarrow> time \<Rightarrow> nat \<Rightarrow> nat \<Rightarrow> UpdateArticleRequest option \<Rightarrow> db
     \<Rightarrow> (error + Article) \<times> db" where
  "Update tbl now i authorID r d =
     (case validateUpdateRequest r of
        Inl err \<Rightarrow> (Inl err, d)
      | Inr req \<Rightarrow>
          (case articleRepo_GetByID i d of
             (Inl err, d1) \<Rightarrow> (Inl (Err ''article not found''), d1)
           | (Inr article, d1) \<Rightarrow>
               if AuthorID article \<noteq> authorID
               then (Inl (Err ''unauthorized: you can only edit your own articles''), d1)
               else
                 (case Update_title tbl req (article, False) d1 of
                    (Inl err, d2) \<Rightarrow> (Inl err, d2)
                  | (Inr au, d2) \<Rightarrow>
                      (case Update_category req (Update_excerpt req (Update_content req au)) d2 of
                         (Inl err, d3) \<Rightarrow> (Inl err, d3)
                       | (Inr au, d3) \<Rightarrow>
                           (case Update_tags tbl req (Update_status now req au) d3 of
                              (Inl err, d4) \<Rightarrow> (Inl err, d4)
                            | (Inr au, d4) \<Rightarrow> Update_save now au d4)))))"

definition changeStatus ::
  "time \<Rightarrow> nat \<Rightarrow> nat \<Rightarrow> gostring \<Rightarrow> db \<Rightarrow> (error + Article) \<times> db" where
  "changeStatus now i authorID status d =
     (case articleRepo_GetByID i d of
        (Inl err, d1) \<Rightarrow> (Inl (Err ''article not found''), d1)
      | (Inr article, d1) \<Rightarrow>
          if AuthorID article \<noteq> authorID
          then (Inl (Err ''unauthorized: you can only modify your own articles''), d1)
          else if Status article = status then (Inr article, d1)
          else
            (let article = article\<lparr>Status := status\<rparr>;
                 article = (if status = StatusPublished \<and> PublishedAt article = None
                            then article\<lparr>PublishedAt := Some now\<rparr> else article)
             in case articleRepo_Update now article d1 of
                  (Inl err, d2) \<Rightarrow> (Inl (Wrap ''failed to update article status'' err), d2)
                | (Inr saved, d2) \<Rightarrow> (Inr saved, d2)))"

definition Publish :: "time \<Rightarrow> nat \<Rightarrow> nat \<Rightarrow> db \<Rightarrow> (error + Article) \<times> db" where
  "Publish now i authorID d = changeStatus now i authorID StatusPublished d"

definition Unpublish :: "time \<Rightarrow> nat \<Rightarrow> nat \<Rightarrow> db \<Rightarrow> (error + Article) \<times> db" where
  "Unpublish now i authorID d = changeStatus now i authorID StatusDraft d"

definition Archive :: "time \<Rightarrow> nat \<Rightarrow> nat \<Rightarrow> db \<Rightarrow> (error + Article) \<times> db" where
  "Archive now i authorID d = changeStatus now i authorID StatusArchived d"

subsection \<open>Sequences of operations\<close>

text \<open>
  An operation of the article service with its arguments; \<open>run_ops\<close> applies a sequence
  of them, each at its own clock reading, and keeps the store.
\<close>

datatype article_op =
    OpCreate nat "CreateArticleRequest option"
  | OpUpdate nat nat "UpdateArticleRequest option"
  | OpPublish nat nat
  | OpUnpublish nat nat
  | OpArchive nat nat

fun apply_op :: "(rune \<Rightarrow> rune) \<Rightarrow> time \<Rightarrow> article_op \<Rightarrow> db \<Rightarrow> (error + Article) \<times> db" where
  "apply_op tbl now (OpCreate authorID r) d = Create tbl now authorID r d"
| "apply_op tbl now (OpUpdate i authorID r) d = Update tbl now i authorID r d"
| "apply_op tbl now (OpPublish i authorID) d = Publish now i authorID d"
| "apply_op tbl now (OpUnpublish i authorID) d = Unpublish now i authorID d"
| "apply_op tbl now (OpArchive i authorID) d = Archive now i authorID d"

fun run_ops :: "(rune \<Rightarrow> rune) \<Rightarrow> (time \<times> article_op) list \<Rightarrow> db \<Rightarrow> db" where
  "run_ops tbl [] d = d"
| "run_ops tbl ((now, op) # ops) d = run_ops tbl ops (snd (apply_op tbl now op d))"

text \<open>
  The row of the articles table with key \<open>i\<close>, the timestamp stored for it, the
  invariant of the claim and the primary-key discipline of the table.
\<close>

definition article_row :: "nat \<Rightarrow> db \<Rightarrow> Article option" where
  "article_row i d = find (\<lambda>a. ID a = i) (articles d)"

definition timestamp_of :: "nat \<Rightarrow> db \<Rightarrow> time option" where
  "timestamp_of i d = (case article_row i d of None \<Rightarrow> None | Some a \<Rightarrow> PublishedAt a)"

definition published_has_timestamp :: "db \<Rightarrow> bool" where
  "published_has_timestamp d \<longleftrightarrow>
     (\<forall>a\<in>set (articles d). Status a = StatusPublished \<longrightarrow> PublishedAt a \<noteq> None)"

definition primary_keys :: "db \<Rightarrow> bool" where
  "primary_keys d \<longleftrightarrow>
     distinct (map ID (articles d)) \<and> (\<forall>a\<in>set (articles d). ID a < next_article_id d)"

subsection \<open>Vocabulary of the proofs about the article store\<close>

text \<open>
  \<open>same_articles\<close>: a call left the articles table and its key counter alone.
  \<open>pub_eq\<close>: two versions of an article agree on key, status and timestamp.
  \<open>evolves\<close>: what one operation may do to a stored article: keep its timestamp, or
  set a missing one to the clock reading while the status becomes published.
  \<open>step_ok\<close>: what one operation may do to the store.
\<close>

definition same_articles :: "db \<Rightarrow> db \<Rightarrow> bool" where
  "same_articles d d' \<longleftrightarrow> articles d' = articles d \<and> next_article_id d' = next_article_id d"

definition evolves :: "time \<Rightarrow> Article \<Rightarrow> Article \<Rightarrow> bool" where
  "evolves now a0 a \<longleftrightarrow>
     ID a = ID a0 \<and> (Status a = StatusPublished \<longrightarrow> PublishedAt a \<noteq> None) \<and>
     (PublishedAt a = PublishedAt a0 \<or>
      (PublishedAt a0 = None \<and> PublishedAt a = Some now \<and> Status a = StatusPublished))"

definition step_ok :: "time \<Rightarrow> db \<Rightarrow> db \<Rightarrow> bool" where
  "step_ok now d d' \<longleftrightarrow>
     primary_keys d' \<and> published_has_timestamp d' \<and>
     (\<forall>i t. timestamp_of i d = Some t \<longrightarrow> timestamp_of i d' = Some t) \<and>
     (\<forall>i t. timestamp_of i d = None \<longrightarrow> timestamp_of i d' = Some t \<longrightarrow>
        t = now \<and> (\<exists>a. article_row i d' = Some a \<and> Status a = StatusPublished))"

definition pub_eq :: "Article \<Rightarrow> Article \<Rightarrow> bool" where
  "pub_eq a a' \<longleftrightarrow> ID a' = ID a \<and> Status a' = Status a \<and> PublishedAt a' = PublishedAt a"

text \<open>A store with one draft article of author 7, for the worked examples.\<close>

definition demo_article :: Article where
  "demo_article = \<lparr>ID = 1, Title = str ''t'', Slug = str ''t'', Content = str ''c'',
     Excerpt = [], AuthorID = 7, CategoryID = None, Tags = [], Status = StatusDraft,
     ViewCount = 0, LikeCount = 0, CommentCount = 0, PublishedAt = None, CreatedAt = 50,
     DeletedAt = None\<rparr>"

definition demo_db :: db where
  "demo_db = \<lparr>articles = [demo_article], tags = [], users = [7], categories = [],
     next_article_id = 2, next_tag_id = 1, faults = [], calls = []\<rparr>"

subsection \<open>Vocabulary of the proofs about unique slugs\<close>

text \<open>
  \<open>numbered base k\<close> is the candidate \<^verbatim>\<open>base-k\<close>; \<open>candidate base k\<close> is the slug the
  loop tries in its round \<open>k\<close> (the base itself first); \<open>taken_slugs base N\<close> is the
  set of the claim: the base and its first \<open>N\<close> numbered variants. \<open>tag_store\<close> and
  \<open>article_store\<close> are stores that hold exactly these slugs.
\<close>

definition numbered :: "gostring \<Rightarrow> nat \<Rightarrow> gostring" where
  "numbered base k = base @ [dash] @ itoa k"

definition candidate :: "gostring \<Rightarrow> nat \<Rightarrow> gostring" where
  "candidate base k = (if k = 0 then base else numbered base k)"

definition taken_slugs :: "gostring \<Rightarrow> nat \<Rightarrow> gostring set" where
  "taken_slugs base N = insert base (numbered base ` {1..N})"

definition tag_store :: "gostring \<Rightarrow> nat \<Rightarrow> db" where
  "tag_store base N =
     \<lparr>articles = [],
      tags = map (\<lambda>k. \<lparr>Tag_ID = k + 1, Tag_Name = candidate base k, Tag_Slug = candidate base k\<rparr>)
               [0..<N + 1],
      users = [], categories = [], next_article_id = 1, next_tag_id = N + 2, faults = [],
      calls = []\<rparr>"

definition article_store :: "gostring \<Rightarrow> nat \<Rightarrow> db" where
  "article_store base N =
     \<lparr>articles = map (\<lambda>k. demo_article\<lparr>ID := k + 1, Slug := candidate base k\<rparr>) [0..<N + 1],
      tags = [], users = [7], categories = [], next_article_id = N + 2, next_tag_id = 1,
      faults = [], calls = []\<rparr>"

text \<open>The value of a decimal numeral, to tell the numbered candidates apart.\<close>

definition atoi :: "gostring \<Rightarrow> nat" where
  "atoi s = foldl (\<lambda>acc c. 10 * acc + (c - 48)) 0 s"

text \<open>A lookup that finds exactly the slugs of \<open>S\<close>, in every store that satisfies \<open>P\<close>.\<close>

definition finds_exactly ::
  "(gostring \<Rightarrow> db \<Rightarrow> (error + 'a) \<times> db) \<Rightarrow> (db \<Rightarrow> bool) \<Rightarrow> gostring set \<Rightarrow> bool" where
  "finds_exactly get P S \<longleftrightarrow>
     (\<forall>s d. P d \<longrightarrow> P (snd (get s d)) \<and>
        (if s \<in> S then (\<exists>x. fst (get s d) = Inr x) else fst (get s d) = Inl ErrRecordNotFound))"

section \<open>Statistics service (internal/services/statistics_service.go)\<close>

text \<open>
  Go's \<^verbatim>\<open>int\<close> is a 64-bit integer: \<open>int64\<close> wraps a mathematical result around.
  \<open>quot\<close> is Go's integer division, which truncates toward zero.
\<close>

definition int64 :: "int \<Rightarrow> int" where
  "int64 x = signed_take_bit 63 x"

definition quot :: "int \<Rightarrow> int \<Rightarrow> int" where
  "quot a b = sgn a * sgn b * (\<bar>a\<bar> div \<bar>b\<bar>)"

text \<open>
  The exchange sort that both rankings use:
  \<^verbatim>\<open>for i := 0; i < len(xs)-1; i++ { for j := i+1; j < len(xs); j++ { if xs[i] < xs[j] { swap } } }\<close>.
  \<open>n\<close> is \<^verbatim>\<open>len(xs)\<close>, which the swaps do not change; \<open>lt\<close> is the comparison of the scores.
\<close>

function sort_inner :: "('a \<Rightarrow> 'a \<Rightarrow> bool) \<Rightarrow> nat \<Rightarrow> nat \<Rightarrow> nat \<Rightarrow> 'a list \<Rightarrow> 'a list" where
  "sort_inner lt n i j xs =
     (if j < n then
        sort_inner lt n i (j + 1)
          (if lt (xs ! i) (xs ! j) then xs[i := xs ! j, j := xs ! i] else xs)
      else xs)"
  by pat_completeness auto
termination
  by (relation "measure (\<lambda>(lt, n, i, j, xs). n - j)") auto

declare sort_inner.simps [simp del]

function sort_outer :: "('a \<Rightarrow> 'a \<Rightarrow> bool) \<Rightarrow> nat \<Rightarrow> nat \<Rightarrow> 'a list \<Rightarrow> 'a list" where
  "sort_outer lt n i xs =
     (if i + 1 < n then sort_outer lt n (i + 1) (sort_inner lt n i (i + 1) xs) else xs)"
  by pat_completeness auto
termination
  by (relation "measure (\<lambda>(lt, n, i, xs). n - i)") auto

declare sort_outer.simps [simp del]

definition sort_desc :: "('a \<Rightarrow> 'a \<Rightarrow> bool) \<Rightarrow> 'a list \<Rightarrow> 'a list" where
  "sort_desc lt xs = sort_outer lt (length xs) 0 xs"

text \<open>
  A \<^verbatim>\<open>float64\<close> score. Finite values are kept exact (rounding is not modelled), which
  is what float64 does as long as the counters stay below \<open>2^53\<close>.
\<close>

record PopularArticle =
  Popular_ArticleID :: nat
  Popular_Title :: gostring
  Popular_Slug :: gostring
  Popular_ViewCount :: nat
  Popular_LikeCount :: nat
  Popular_CommentCount :: nat
  Popular_Score :: rat
  Popular_CreatedAt :: time

text \<open>The weighted sum: views once, likes three times, comments five times.\<close>

definition weighted :: "Article \<Rightarrow> rat" where
  "weighted article =
     of_nat (ViewCount article) + of_nat (LikeCount article) * 3 + of_nat (CommentCount article) * 5"

definition popular_entry :: "Article \<Rightarrow> PopularArticle" where
  "popular_entry article =
     \<lparr>Popular_ArticleID = ID article, Popular_Title = Title article, Popular_Slug = Slug article,
      Popular_ViewCount = ViewCount article, Popular_LikeCount = LikeCount article,
      Popular_CommentCount = CommentCount article, Popular_Score = weighted article,
      Popular_CreatedAt = CreatedAt article\<rparr>"

text \<open>
  \<open>fetch offset limit status\<close> is \<^verbatim>\<open>articleRepo.List(offset, limit, filters)\<close> with the
  status filter: what the upstream query returns, or its error.
\<close>

definition GetPopularArticles ::
  "(int \<Rightarrow> int \<Rightarrow> gostring \<Rightarrow> error + Article list) \<Rightarrow> int \<Rightarrow> error + PopularArticle list" where
  "GetPopularArticles fetch limit0 =
     (let limit = (if limit0 \<le> 0 then 10 else limit0) in
      case fetch 0 (int64 (limit * 2)) StatusPublished of
        Inl err \<Rightarrow> Inl (Wrap ''failed to get articles'' err)
      | Inr fetched \<Rightarrow>
          (let popularArticles = map popular_entry fetched;
               popularArticles =
                 sort_desc (\<lambda>x y. Popular_Score x < Popular_Score y) popularArticles
           in Inr (if int (length popularArticles) > limit
                   then take (nat limit) popularArticles else popularArticles)))"





text \<open>
  Times: \<^verbatim>\<open>Time.Sub\<close> saturates at the range of a Duration, \<^verbatim>\<open>Duration.Hours\<close> is the
  exact quotient, and \<^verbatim>\<open>AddDate(0, 0, n)\<close> moves by \<open>n\<close> days of 24 hours (a location
  without clock changes, such as UTC).
\<close>

definition day_ns :: int where
  "day_ns = 86400000000000"

definition Sub :: "time \<Rightarrow> time \<Rightarrow> int" where
  "Sub t u =
     (if t - u > 9223372036854775807 then 9223372036854775807
      else if t - u < - 9223372036854775808 then - 9223372036854775808
      else t - u)"









definition page_limit :: "int \<Rightarrow> int" where
  "page_limit limit0 = (if limit0 \<le> 0 then 10 else limit0)"

definition in_window :: "time \<Rightarrow> Article \<Rightarrow> bool" where
  "in_window cutoffDate article =
     (case PublishedAt article of None \<Rightarrow> False | Some published \<Rightarrow> published > cutoffDate)"

text \<open>The two articles of the worked example of the popularity score.\<close>

definition viewed_article :: Article where
  "viewed_article = demo_article\<lparr>ID := 1, Status := StatusPublished, ViewCount := 10,
     LikeCount := 2, CommentCount := 1, PublishedAt := Some 50\<rparr>"

definition discussed_article :: Article where
  "discussed_article = demo_article\<lparr>ID := 2, Status := StatusPublished, ViewCount := 0,
     LikeCount := 0, CommentCount := 4, PublishedAt := Some 50\<rparr>"



definition steady_clock :: "nat \<Rightarrow> time" where
  "steady_clock k = 1000 * day_ns"


section \<open>Search service (internal/services/search_service.go)\<close>

text \<open>\<^verbatim>\<open>strings.Fields\<close> scans the string and cuts it at runs of white space.\<close>

fun fields_scan :: "gostring \<Rightarrow> gostring \<Rightarrow> gostring list" where
  "fields_scan word [] = (if word = [] then [] else [word])"
| "fields_scan word (r # rs) =
     (if is_space r then (if word = [] then fields_scan [] rs else word # fields_scan [] rs)
      else fields_scan (word @ [r]) rs)"

definition Fields :: "gostring \<Rightarrow> gostring list" where
  "Fields s = fields_scan [] s"

fun Join :: "gostring list \<Rightarrow> gostring \<Rightarrow> gostring" where
  "Join [] sep = []"
| "Join [w] sep = w"
| "Join (w # ws) sep = w @ sep @ Join ws sep"

text \<open>
  The classes of the two patterns of \<^verbatim>\<open>sanitizeQuery\<close>: \<^verbatim>\<open>\s\<close> and \<^verbatim>\<open>\w\<close> of the
  regexp package (ASCII only), and the punctuation the second pattern keeps:
  \<^verbatim>\<open>- . , ! ? : ; ( ) [ ] " '\<close>.
\<close>

definition re_space :: "rune \<Rightarrow> bool" where
  "re_space r \<longleftrightarrow> r = 9 \<or> r = 10 \<or> r = 12 \<or> r = 13 \<or> r = 32"

definition re_word :: "rune \<Rightarrow> bool" where
  "re_word r \<longleftrightarrow> (48 \<le> r \<and> r \<le> 57) \<or> (65 \<le> r \<and> r \<le> 90) \<or> r = 95 \<or> (97 \<le> r \<and> r \<le> 122)"

definition kept_punctuation :: "rune \<Rightarrow> bool" where
  "kept_punctuation r \<longleftrightarrow> r \<in> set (str ''-.,!?:;()[]'') \<or> r = 34 \<or> r = 39"

definition allowed :: "rune \<Rightarrow> bool" where
  "allowed r \<longleftrightarrow> re_word r \<or> re_space r \<or> kept_punctuation r"

definition sanitizeQuery :: "gostring \<Rightarrow> gostring" where
  "sanitizeQuery query0 =
     (let query = TrimSpace query0;
          query = ReplaceAllRuns re_space [32] query;
          query = ReplaceAllRuns (\<lambda>r. \<not> allowed r) [32] query
      in TrimSpace query)"

text \<open>The cutset of \<^verbatim>\<open>prepareBooleanQuery\<close>: \<^verbatim>\<open>+ - < > ( ) ~ * "\<close>.\<close>

definition boolean_operators :: gostring where
  "boolean_operators = str ''+-<>()~*'' @ [34]"

fun booleanTerms_loop :: "gostring list \<Rightarrow> gostring list" where
  "booleanTerms_loop [] = []"
| "booleanTerms_loop (word # rest) =
     (let word = Trim word boolean_operators in
      if word \<noteq> [] then word # booleanTerms_loop rest else booleanTerms_loop rest)"

definition prepareBooleanQuery :: "gostring \<Rightarrow> gostring" where
  "prepareBooleanQuery query =
     (let words = Fields query in
      if length words = 0 then query
      else Join (booleanTerms_loop words) [32])"

text \<open>
  \<^verbatim>\<open>generateSuggestions\<close>. It slices the first word by bytes; \<open>Search\<close> calls it with a
  sanitized query, which is ASCII, so that bytes and runes coincide.
\<close>

definition drop_word :: "gostring list \<Rightarrow> nat \<Rightarrow> gostring" where
  "drop_word words i = Join (map snd (filter (\<lambda>(j, w). i \<noteq> j) (enumerate 0 words))) [32]"

fun unique_suggestions :: "gostring \<Rightarrow> gostring list \<Rightarrow> gostring set \<Rightarrow> gostring list" where
  "unique_suggestions lowered [] seen = []"
| "unique_suggestions lowered (s # rest) seen =
     (if s \<notin> seen \<and> s \<noteq> lowered then s # unique_suggestions lowered rest (insert s seen)
      else unique_suggestions lowered rest seen)"

definition generateSuggestions :: "(rune \<Rightarrow> rune) \<Rightarrow> gostring \<Rightarrow> gostring list" where
  "generateSuggestions tbl query =
     (let words = Fields (ToLower tbl query);
          suggestions =
            (case words of
               [] \<Rightarrow> []
             | firstWord # others \<Rightarrow>
                 (if length words > 1 then map (drop_word words) [0..<length words] else [])
                 @ (if len firstWord > 3 then [butlast firstWord, tl firstWord] else []));
          uniqueSuggestions = unique_suggestions (ToLower tbl query) suggestions {}
      in if length uniqueSuggestions > 5 then take 5 uniqueSuggestions else uniqueSuggestions)"

record SearchRequest =
  Search_Query :: gostring
  Search_CategoryID :: nat
  Search_AuthorID :: nat
  Search_TagID :: nat
  Search_Status :: gostring
  Search_DateFrom :: "time option"
  Search_DateTo :: "time option"
  Search_SearchMode :: gostring

record SearchFilters =
  Filter_Status :: gostring
  Filter_CategoryID :: nat
  Filter_AuthorID :: nat
  Filter_TagID :: nat
  Filter_DateFrom :: "time option"
  Filter_DateTo :: "time option"

record SearchResponse =
  Response_Articles :: "Article list"
  Response_Total :: int
  Response_Page :: int
  Response_Limit :: int
  Response_TotalPages :: int
  Response_Query :: gostring
  Response_SearchTime :: int
  Response_Suggestions :: "gostring list"

text \<open>A zero \<^verbatim>\<open>time.Time\<close> (\<^verbatim>\<open>IsZero\<close>) is \<open>None\<close>.\<close>

definition validateSearchRequest :: "SearchRequest option \<Rightarrow> error + SearchRequest" where
  "validateSearchRequest r =
     (case r of
        None \<Rightarrow> Inl (Err ''search request is required'')
      | Some req \<Rightarrow>
          (if TrimSpace (Search_Query req) = [] then Inl (Err ''search query is required'')
           else if len (Search_Query req) > 255
             then Inl (Err ''search query must be less than 255 characters'')
           else if Search_Status req \<noteq> []
                 \<and> Search_Status req \<notin> set [str ''draft'', str ''published'', str ''archived'']
             then Inl (Err ''invalid status filter'')
           else if Search_SearchMode req \<noteq> [] \<and> Search_SearchMode req \<noteq> str ''natural''
                 \<and> Search_SearchMode req \<noteq> str ''boolean''
             then Inl (Err ''search mode must be natural or boolean'')
           else
             (case (Search_DateFrom req, Search_DateTo req) of
                (Some dateFrom, Some dateTo) \<Rightarrow>
                  if dateFrom > dateTo then Inl (Err ''date_from must be before date_to'')
                  else Inr req
              | _ \<Rightarrow> Inr req)))"

text \<open>
  The full-text engine of the database is a parameter \<open>engine\<close>: for the mode (boolean
  or natural language), the query, the page and the filters it gives the matching
  articles and their total. The repository methods log their call and may fail.
\<close>

type_synonym fulltext = "bool \<Rightarrow> gostring \<Rightarrow> int \<Rightarrow> int \<Rightarrow> SearchFilters \<Rightarrow> Article list \<times> int"

definition articleRepo_SearchWithBoolean ::
  "fulltext \<Rightarrow> gostring \<Rightarrow> int \<Rightarrow> int \<Rightarrow> SearchFilters \<Rightarrow> db
     \<Rightarrow> (error + Article list \<times> int) \<times> db" where
  "articleRepo_SearchWithBoolean engine query offset limit filters d =
     (case call (ArticleSearchWithBoolean query) d of
        (True, d') \<Rightarrow> (Inl ErrDatabase, d')
      | (False, d') \<Rightarrow> (Inr (engine True query offset limit filters), d'))"

definition articleRepo_AdvancedSearch ::
  "fulltext \<Rightarrow> gostring \<Rightarrow> int \<Rightarrow> int \<Rightarrow> SearchFilters \<Rightarrow> db
     \<Rightarrow> (error + Article list \<times> int) \<times> db" where
  "articleRepo_AdvancedSearch engine query offset limit filters d =
     (case call (ArticleAdvancedSearch query) d of
        (True, d') \<Rightarrow> (Inl ErrDatabase, d')
      | (False, d') \<Rightarrow> (Inr (engine False query offset limit filters), d'))"

text \<open>
  \<^verbatim>\<open>Search\<close>. \<open>clock 0\<close> is the reading at the start, \<open>clock 1\<close> the one at the end.
\<close>

definition Search_respond ::
  "(rune \<Rightarrow> rune) \<Rightarrow> (nat \<Rightarrow> time) \<Rightarrow> SearchRequest \<Rightarrow> gostring \<Rightarrow> int \<Rightarrow> int
     \<Rightarrow> Article list \<times> int \<Rightarrow> SearchResponse" where
  "Search_respond tbl clock req query page limit found =
     (case found of (arts, totalCount) \<Rightarrow>
        \<lparr>Response_Articles = arts, Response_Total = totalCount, Response_Page = page,
         Response_Limit = limit,
         Response_TotalPages = quot (int64 (int64 (totalCount + limit) - 1)) limit,
         Response_Query = Search_Query req,
         Response_SearchTime = Sub (clock 1) (clock 0),
         Response_Suggestions = (if totalCount = 0 then generateSuggestions tbl query else [])\<rparr>)"

definition Search ::
  "(rune \<Rightarrow> rune) \<Rightarrow> fulltext \<Rightarrow> (nat \<Rightarrow> time) \<Rightarrow> SearchRequest option \<Rightarrow> int \<Rightarrow> int \<Rightarrow> db
     \<Rightarrow> (error + SearchResponse) \<times> db" where
  "Search tbl engine clock r page0 limit0 d =
     (case validateSearchRequest r of
        Inl err \<Rightarrow> (Inl err, d)
      | Inr req \<Rightarrow>
          (let query = sanitizeQuery (Search_Query req) in
           if query = [] then (Inl (Err ''search query cannot be empty after sanitization''), d)
           else
             (let page = (if page0 < 1 then 1 else page0);
                  limit = (if limit0 < 1 \<or> limit0 > 100 then 10 else limit0);
                  offset = int64 ((page - 1) * limit);
                  filters = \<lparr>Filter_Status = Search_Status req,
                             Filter_CategoryID = Search_CategoryID req,
                             Filter_AuthorID = Search_AuthorID req,
                             Filter_TagID = Search_TagID req,
                             Filter_DateFrom = Search_DateFrom req,
                             Filter_DateTo = Search_DateTo req\<rparr>
              in
                case (if Search_SearchMode req = str ''boolean''
                      then articleRepo_SearchWithBoolean engine (prepareBooleanQuery query)
                             offset limit filters d
                      else articleRepo_AdvancedSearch engine query offset limit filters d) of
                  (Inl err, d') \<Rightarrow> (Inl (Wrap ''search failed'' err), d')
                | (Inr found, d') \<Rightarrow>
                    (Inr (Search_respond tbl clock req query page limit found), d'))))"

text \<open>
  For the examples: a request that sets only the query and the mode, and an engine that
  finds nothing.
\<close>

definition query_request :: "gostring \<Rightarrow> gostring \<Rightarrow> SearchRequest" where
  "query_request q mode =
     \<lparr>Search_Query = q, Search_CategoryID = 0, Search_AuthorID = 0, Search_TagID = 0,
      Search_Status = [], Search_DateFrom = None, Search_DateTo = None,
      Search_SearchMode = mode\<rparr>"

definition no_results :: fulltext where
  "no_results boolean query offset limit filters = ([], 0)"


section \<open>Properties of the slug generator\<close>

lemma set_TrimFunc: "set (TrimFunc f s) \<subseteq> set s"
  unfolding TrimFunc_def by (auto dest!: set_dropWhileD)

lemma set_TrimSuffix: "set (TrimSuffix s suf) \<subseteq> set s"
  unfolding TrimSuffix_def by (auto dest: in_set_takeD)

lemma set_ReplaceAllRuns:
  "set (ReplaceAllRuns cls repl s) \<subseteq> {r \<in> set s. \<not> cls r} \<union> set repl"
proof (induction cls repl s rule: ReplaceAllRuns.induct)
  case (1 cls repl)
  then show ?case by simp
next
  case (2 cls repl r rs)
  show ?case
  proof (cases "cls r")
    case True
    with 2 have "set (ReplaceAllRuns cls repl (dropWhile cls rs)) \<subseteq> {r \<in> set (dropWhile cls rs). \<not> cls r} \<union> set repl"
      by simp
    moreover have "set (dropWhile cls rs) \<subseteq> set rs" by (auto dest: set_dropWhileD)
    ultimately show ?thesis using True by auto
  next
    case False
    with 2 show ?thesis by auto
  qed
qed

lemma ReplaceAllRuns_hd:
  "s \<noteq> [] \<Longrightarrow> \<not> cls (hd s) \<Longrightarrow> ReplaceAllRuns cls repl s = hd s # ReplaceAllRuns cls repl (tl s)"
  by (cases s) auto

lemma dropWhile_hd: "dropWhile f s \<noteq> [] \<Longrightarrow> \<not> f (hd (dropWhile f s))"
  by (simp add: hd_dropWhile)

lemma successively_ReplaceAllRuns:
  "cls d \<Longrightarrow> successively (\<lambda>x y. \<not> (x = d \<and> y = d)) (ReplaceAllRuns cls [d] s)"
proof (induction cls "[d]" s rule: ReplaceAllRuns.induct)
  case (1 cls)
  then show ?case by simp
next
  case (2 cls r rs)
  show ?case
  proof (cases "cls r")
    case True
    let ?t = "dropWhile cls rs"
    have IH: "successively (\<lambda>x y. \<not> (x = d \<and> y = d)) (ReplaceAllRuns cls [d] ?t)"
      using 2 True by simp
    show ?thesis
    proof (cases "?t = []")
      case True
      have "ReplaceAllRuns cls [d] (r # rs) = [d]"
        using \<open>cls r\<close> by (simp only: ReplaceAllRuns.simps True if_True append_Nil2)
      then show ?thesis by simp
    next
      case False
      then have nh: "\<not> cls (hd ?t)" by (simp add: hd_dropWhile)
      then have "hd ?t \<noteq> d" using 2(3) by auto
      moreover have "ReplaceAllRuns cls [d] ?t = hd ?t # ReplaceAllRuns cls [d] (tl ?t)"
        using False nh by (rule ReplaceAllRuns_hd)
      ultimately show ?thesis using IH \<open>cls r\<close> by (simp add: successively_Cons)
    qed
  next
    case False
    then have "r \<noteq> d" using 2(3) by auto
    then show ?thesis using 2 False by (simp add: successively_Cons)
  qed
qed


lemma last_dropWhile: "dropWhile f xs \<noteq> [] \<Longrightarrow> last (dropWhile f xs) = last xs"
proof -
  assume a: "dropWhile f xs \<noteq> []"
  have "last xs = last (takeWhile f xs @ dropWhile f xs)" by simp
  also have "\<dots> = last (dropWhile f xs)" using a by (rule last_appendR)
  finally show ?thesis by simp
qed

lemma TrimFunc_ends:
  assumes "TrimFunc f s \<noteq> []"
  shows "\<not> f (hd (TrimFunc f s))" and "\<not> f (last (TrimFunc f s))"
proof -
  let ?a = "dropWhile f s"
  let ?b = "dropWhile f (rev ?a)"
  have b: "?b \<noteq> []" using assms by (simp add: TrimFunc_def del: dropWhile_eq_Nil_conv)
  then have a: "?a \<noteq> []" by (auto simp del: dropWhile_eq_Nil_conv)
  have "hd (TrimFunc f s) = last ?b" using b by (simp add: TrimFunc_def hd_rev del: dropWhile_eq_Nil_conv)
  also have "\<dots> = last (rev ?a)" using b by (rule last_dropWhile)
  also have "\<dots> = hd ?a" using a by (simp add: last_rev del: dropWhile_eq_Nil_conv)
  finally show "\<not> f (hd (TrimFunc f s))" using a by (simp add: hd_dropWhile del: dropWhile_eq_Nil_conv)
  have "last (TrimFunc f s) = hd ?b" using b by (simp add: TrimFunc_def last_rev del: dropWhile_eq_Nil_conv)
  then show "\<not> f (last (TrimFunc f s))" using b by (simp add: hd_dropWhile del: dropWhile_eq_Nil_conv)
qed

lemma successively_dropWhile:
  "successively P xs \<Longrightarrow> successively P (dropWhile f xs)"
proof -
  assume "successively P xs"
  then have "successively P (takeWhile f xs @ dropWhile f xs)" by simp
  then show ?thesis by (simp only: successively_append_iff)
qed

lemma successively_take:
  "successively P xs \<Longrightarrow> successively P (take n xs)"
proof -
  assume "successively P xs"
  then have "successively P (take n xs @ drop n xs)" by simp
  then show ?thesis by (simp only: successively_append_iff)
qed

lemma successively_TrimFunc:
  assumes "successively (\<lambda>x y. \<not> (x = d \<and> y = d)) s"
  shows "successively (\<lambda>x y. \<not> (x = d \<and> y = d)) (TrimFunc f s)"
proof -
  have sym: "(\<lambda>x y. \<not> (y = d \<and> x = d)) = (\<lambda>x y. \<not> (x = d \<and> y = d))"
    by (intro ext) auto
  have rv: "successively (\<lambda>x y. \<not> (x = d \<and> y = d)) (rev xs)
      \<longleftrightarrow> successively (\<lambda>x y. \<not> (x = d \<and> y = d)) xs" for xs
    by (simp only: successively_rev sym)
  have "successively (\<lambda>x y. \<not> (x = d \<and> y = d)) (rev (dropWhile f s))"
    using successively_dropWhile [OF assms, of f] by (simp only: rv)
  then have "successively (\<lambda>x y. \<not> (x = d \<and> y = d)) (dropWhile f (rev (dropWhile f s)))"
    by (rule successively_dropWhile)
  then show ?thesis by (simp only: TrimFunc_def rv)
qed

lemma ReplaceAllRuns_all:
  "\<forall>r\<in>set s. cls r \<Longrightarrow> ReplaceAllRuns cls repl s = (if s = [] then [] else repl)"
proof (cases s)
  case Nil
  then show ?thesis by simp
next
  case (Cons a list)
  assume all: "\<forall>r\<in>set s. cls r"
  then have "dropWhile cls list = []" using Cons by simp
  then have "ReplaceAllRuns cls repl (a # list) = repl"
    using all Cons by (simp del: dropWhile_eq_Nil_conv)
  then show ?thesis using Cons by simp
qed

lemma not_alnum_dash: "\<not> is_lower_alnum dash"
  by (simp add: is_lower_alnum_def dash_def)

lemma GenerateSlug_trimmed:
  "GenerateSlug tbl text =
     (if length (trimmed tbl text) > 100 then TrimSuffix (take 100 (trimmed tbl text)) [dash]
      else trimmed tbl text)"
  by (simp add: GenerateSlug_def trimmed_def Let_def)

lemma trimmed_chars: "r \<in> set (trimmed tbl text) \<Longrightarrow> is_lower_alnum r \<or> r = dash"
proof -
  assume "r \<in> set (trimmed tbl text)"
  then have "r \<in> set (ReplaceAllRuns (\<lambda>r. \<not> is_lower_alnum r) [dash] (ToLower tbl text))"
    using set_TrimFunc by (auto simp: trimmed_def Trim_def)
  then show ?thesis using set_ReplaceAllRuns [of "\<lambda>r. \<not> is_lower_alnum r" "[dash]" "ToLower tbl text"]
    by auto
qed

lemma trimmed_ends:
  "trimmed tbl text \<noteq> [] \<Longrightarrow> hd (trimmed tbl text) \<noteq> dash \<and> last (trimmed tbl text) \<noteq> dash"
  using TrimFunc_ends [of "\<lambda>r. r \<in> set [dash]" "ReplaceAllRuns (\<lambda>r. \<not> is_lower_alnum r) [dash] (ToLower tbl text)"]
  by (simp add: trimmed_def Trim_def)

lemma trimmed_successively:
  "successively (\<lambda>x y. \<not> (x = dash \<and> y = dash)) (trimmed tbl text)"
  unfolding trimmed_def Trim_def
  by (rule successively_TrimFunc, rule successively_ReplaceAllRuns) (rule not_alnum_dash)

lemma cut_ends:
  assumes len: "length t > 100" and hd: "hd t \<noteq> d"
    and succ: "successively (\<lambda>x y. \<not> (x = d \<and> y = d)) t"
  shows "TrimSuffix (take 100 t) [d] \<noteq> []"
    and "hd (TrimSuffix (take 100 t) [d]) \<noteq> d"
    and "last (TrimSuffix (take 100 t) [d]) \<noteq> d"
    and "length (TrimSuffix (take 100 t) [d]) \<le> 100"
proof -
  let ?u = "take 100 t"
  have lu: "length ?u = 100" using len by simp
  have drop: "drop 99 ?u = [?u ! 99]"
    using lu by (metis Cons_nth_drop_Suc drop_all eval_nat_numeral(3) lessI numeral_eq_Suc order_refl pred_numeral_simps(3) Suc_numeral semiring_norm(5,8))
  show "TrimSuffix (take 100 t) [d] \<noteq> []" using lu by (auto simp: TrimSuffix_def)
  show "length (TrimSuffix (take 100 t) [d]) \<le> 100" using lu by (auto simp: TrimSuffix_def)
  have h: "hd ?u = hd t" using len by (cases t) auto
  show "hd (TrimSuffix (take 100 t) [d]) \<noteq> d"
    using lu h hd by (auto simp: TrimSuffix_def hd_take)
  have n: "\<not> (t ! 98 = d \<and> t ! 99 = d)"
    using successively_nth [OF succ, of 98] len by simp
  show "last (TrimSuffix (take 100 t) [d]) \<noteq> d"
  proof (cases "?u ! 99 = d")
    case True
    then have "TrimSuffix ?u [d] = take 99 ?u" using lu drop by (simp add: TrimSuffix_def)
    moreover have "last (take 99 ?u) = ?u ! 98"
    proof -
      have t99: "take 99 ?u = take 99 t" by simp
      have ne: "take 99 t \<noteq> []" using len by auto
      have l: "length (take 99 t) = 99" using len by simp
      have "last (take 99 t) = take 99 t ! 98" using last_conv_nth [OF ne] l by simp
      then show ?thesis using t99 by simp
    qed
    ultimately show ?thesis using n True by simp
  next
    case False
    then have "TrimSuffix ?u [d] = ?u" using lu drop by (simp add: TrimSuffix_def)
    moreover have "last ?u = ?u ! 99"
    proof -
      have ne: "?u \<noteq> []" using len by auto
      show ?thesis using last_conv_nth [OF ne] lu by simp
    qed
    ultimately show ?thesis using False by simp
  qed
qed


text \<open>
  Claim C2. For every input text (and every Unicode case table), the slug returned by
  \<open>GenerateSlug\<close> holds only the characters a-z, 0-9 and the hyphen, does not start
  and does not end with a hyphen and is at most 100 characters long. The function is
  total. If the input consists of white space only (the empty text included), the result
  is the empty string; white space has no case mapping, which is the condition on the
  table.
\<close>

theorem GenerateSlug_spec:
  "(\<forall>r\<in>set (GenerateSlug tbl text). is_lower_alnum r \<or> r = dash)
   \<and> \<not> prefix [dash] (GenerateSlug tbl text)
   \<and> \<not> suffix [dash] (GenerateSlug tbl text)
   \<and> length (GenerateSlug tbl text) \<le> 100
   \<and> ((\<forall>r\<in>set text. is_space r) \<longrightarrow> (\<forall>r. is_space r \<longrightarrow> tbl r = r)
        \<longrightarrow> GenerateSlug tbl text = [])"
proof (intro conjI impI)
  let ?t = "trimmed tbl text"
  show "\<forall>r\<in>set (GenerateSlug tbl text). is_lower_alnum r \<or> r = dash"
    using trimmed_chars [of _ tbl "text"] set_TrimSuffix [of "take 100 ?t" "[dash]"]
    by (auto simp: GenerateSlug_trimmed dest!: in_set_takeD)
  have ends: "GenerateSlug tbl text \<noteq> [] \<Longrightarrow>
      hd (GenerateSlug tbl text) \<noteq> dash \<and> last (GenerateSlug tbl text) \<noteq> dash"
  proof (cases "length ?t > 100")
    case True
    then have "?t \<noteq> []" by auto
    then have "hd ?t \<noteq> dash" using trimmed_ends by blast
    then show ?thesis
      using cut_ends(2,3) [OF True _ trimmed_successively] True
      by (simp add: GenerateSlug_trimmed)
  next
    case False
    assume "GenerateSlug tbl text \<noteq> []"
    then show ?thesis using False trimmed_ends [of tbl "text"]
      by (simp add: GenerateSlug_trimmed)
  qed
  show "\<not> prefix [dash] (GenerateSlug tbl text)"
    using ends by (cases "GenerateSlug tbl text") auto
  show "\<not> suffix [dash] (GenerateSlug tbl text)"
    using ends by (auto simp: suffix_def)
  show "length (GenerateSlug tbl text) \<le> 100"
  proof (cases "length ?t > 100")
    case True
    then have "?t \<noteq> []" by auto
    then have "hd ?t \<noteq> dash" using trimmed_ends by blast
    then show ?thesis
      using cut_ends(4) [OF True _ trimmed_successively] True
      by (simp add: GenerateSlug_trimmed)
  next
    case False
    then show ?thesis by (simp add: GenerateSlug_trimmed)
  qed
next
  assume sp: "\<forall>r\<in>set text. is_space r" and tb: "\<forall>r. is_space r \<longrightarrow> tbl r = r"
  have "\<not> is_lower_alnum (unicode_ToLower tbl r)" if "is_space r" for r
    using that tb unfolding is_space_def unicode_ToLower_def is_lower_alnum_def
    by (elim disjE) auto
  then have "\<forall>r\<in>set (ToLower tbl text). \<not> is_lower_alnum r"
    using sp by (auto simp: ToLower_def)
  then have "ReplaceAllRuns (\<lambda>r. \<not> is_lower_alnum r) [dash] (ToLower tbl text)
      = (if ToLower tbl text = [] then [] else [dash])"
    by (rule ReplaceAllRuns_all)
  then have "trimmed tbl text = []"
    by (simp add: trimmed_def Trim_def TrimFunc_def)
  then show "GenerateSlug tbl text = []" by (simp add: GenerateSlug_trimmed)
qed

theorem GenerateSlug_spec_witness:
  "GenerateSlug (\<lambda>r. r) (str ''  Hello,   World! '') = str ''hello-world''
   \<and> \<not> prefix [dash] (GenerateSlug (\<lambda>r. r) (str ''  Hello,   World! ''))
   \<and> \<not> suffix [dash] (GenerateSlug (\<lambda>r. r) (str ''  Hello,   World! ''))
   \<and> length (GenerateSlug (\<lambda>r. r) (str ''  Hello,   World! '')) \<le> 100
   \<and> GenerateSlug (\<lambda>r. r) [32, 9, 32] = []"
proof -
  have e: "GenerateSlug (\<lambda>r. r) (str ''  Hello,   World! '') = str ''hello-world''"
    by (simp add: GenerateSlug_def str_def ToLower_def unicode_ToLower_def is_lower_alnum_def
        dash_def Trim_def TrimFunc_def)
  have s: "\<forall>r\<in>set [32, 9, 32::nat]. is_space r" by (simp add: is_space_def)
  show ?thesis
    using e s GenerateSlug_spec [of "\<lambda>r. r" "str ''  Hello,   World! ''"]
      GenerateSlug_spec [of "\<lambda>r. r" "[32, 9, 32]"]
    by simp
qed

section \<open>Properties of the article store\<close>

lemma same_articles_refl [simp]: "same_articles d d"
  by (simp add: same_articles_def)

lemma same_articles_trans: "same_articles d d1 \<Longrightarrow> same_articles d1 d2 \<Longrightarrow> same_articles d d2"
  by (simp add: same_articles_def)

lemma call_same: "call c d = (f, d') \<Longrightarrow> same_articles d d'"
  by (auto simp: call_def same_articles_def split: list.splits)

lemma articleRepo_GetByID_same: "articleRepo_GetByID i d = (r, d') \<Longrightarrow> same_articles d d'"
  by (auto simp: articleRepo_GetByID_def split: prod.splits bool.splits option.splits dest: call_same)

lemma articleRepo_GetBySlug_same: "articleRepo_GetBySlug s d = (r, d') \<Longrightarrow> same_articles d d'"
  by (auto simp: articleRepo_GetBySlug_def split: prod.splits bool.splits option.splits dest: call_same)

lemma userRepo_GetByID_same: "userRepo_GetByID i d = (r, d') \<Longrightarrow> same_articles d d'"
  by (auto simp: userRepo_GetByID_def split: prod.splits bool.splits if_splits dest: call_same)

lemma categoryRepo_GetByID_same: "categoryRepo_GetByID i d = (r, d') \<Longrightarrow> same_articles d d'"
  by (auto simp: categoryRepo_GetByID_def split: prod.splits bool.splits if_splits dest: call_same)

lemma tagRepo_GetByName_same: "tagRepo_GetByName n d = (r, d') \<Longrightarrow> same_articles d d'"
  by (auto simp: tagRepo_GetByName_def split: prod.splits bool.splits option.splits dest: call_same)

lemma tagRepo_GetBySlug_same: "tagRepo_GetBySlug n d = (r, d') \<Longrightarrow> same_articles d d'"
  by (auto simp: tagRepo_GetBySlug_def split: prod.splits bool.splits option.splits dest: call_same)

lemma tagRepo_Create_same: "tagRepo_Create t d = (r, d') \<Longrightarrow> same_articles d d'"
  by (auto simp: tagRepo_Create_def Let_def same_articles_def split: prod.splits bool.splits option.splits dest!: call_same)

lemma unique_slug_loop_same:
  "(\<And>s d r d'. get s d = (r, d') \<Longrightarrow> same_articles d d') \<Longrightarrow>
   unique_slug_loop get b s c d = (r, d') \<Longrightarrow> same_articles d d'"
proof (induction get b s c d rule: unique_slug_loop.induct)
  case (1 get baseSlug slug counter d)
  obtain x d1 where g: "get slug d = (x, d1)" by (cases "get slug d")
  have s1: "same_articles d d1" using "1.prems"(1) g by blast
  show ?case
  proof (cases x)
    case (Inl err)
    then show ?thesis using "1.prems"(2) g s1
      by (subst (asm) unique_slug_loop.simps) (auto split: if_splits)
  next
    case (Inr found)
    show ?thesis
    proof (cases "counter + 1 > 1000")
      case True
      then show ?thesis using "1.prems"(2) g s1 Inr
        by (subst (asm) unique_slug_loop.simps) auto
    next
      case False
      have "unique_slug_loop get baseSlug (baseSlug @ [dash] @ itoa counter) (counter + 1) d1 = (r, d')"
        using "1.prems"(2) g Inr False by (subst (asm) unique_slug_loop.simps) auto
      then have "same_articles d1 d'"
        using "1.IH" [OF g [symmetric] Inr False "1.prems"(1)] by simp
      then show ?thesis using s1 same_articles_trans by blast
    qed
  qed
qed

lemma TagService_generateUniqueSlug_same:
  "TagService_generateUniqueSlug tbl n d = (r, d') \<Longrightarrow> same_articles d d'"
  by (auto simp: TagService_generateUniqueSlug_def Let_def split: if_splits
      intro: unique_slug_loop_same [OF tagRepo_GetBySlug_same])

lemma ArticleService_generateUniqueSlug_same:
  "ArticleService_generateUniqueSlug tbl n d = (r, d') \<Longrightarrow> same_articles d d'"
  by (auto simp: ArticleService_generateUniqueSlug_def Let_def split: if_splits
      intro: unique_slug_loop_same [OF articleRepo_GetBySlug_same])

lemma TagService_Create_same:
  assumes "TagService_Create tbl req d = (r, d')"
  shows "same_articles d d'"
proof (cases "TagService_validateCreateRequest req")
  case (Some e)
  then show ?thesis using assms by (simp add: TagService_Create_def)
next
  case None
  let ?n = "TrimSpace (case req of Some name \<Rightarrow> name | None \<Rightarrow> [])"
  obtain x1 d1 where g1: "tagRepo_GetByName ?n d = (x1, d1)" by (cases "tagRepo_GetByName ?n d")
  have s1: "same_articles d d1" using g1 by (rule tagRepo_GetByName_same)
  show ?thesis
  proof (cases x1)
    case (Inr t)
    then show ?thesis using assms None g1 s1 by (simp add: TagService_Create_def Let_def)
  next
    case (Inl err)
    show ?thesis
    proof (cases "err = ErrRecordNotFound")
      case False
      then show ?thesis using assms None g1 s1 Inl by (simp add: TagService_Create_def Let_def)
    next
      case True
      obtain x2 d2 where g2: "TagService_generateUniqueSlug tbl ?n d1 = (x2, d2)"
        by (cases "TagService_generateUniqueSlug tbl ?n d1")
      have s2: "same_articles d d2"
        using s1 TagService_generateUniqueSlug_same [OF g2] by (rule same_articles_trans)
      show ?thesis
      proof (cases x2)
        case (Inl e2)
        then show ?thesis using assms None g1 g2 s2 \<open>x1 = Inl err\<close> True
          by (simp add: TagService_Create_def Let_def)
      next
        case (Inr slug)
        obtain x3 d3 where g3:
          "tagRepo_Create \<lparr>Tag_ID = 0, Tag_Name = ?n, Tag_Slug = slug\<rparr> d2 = (x3, d3)"
          by (cases "tagRepo_Create \<lparr>Tag_ID = 0, Tag_Name = ?n, Tag_Slug = slug\<rparr> d2")
        have s3: "same_articles d d3"
          using s2 tagRepo_Create_same [OF g3] by (rule same_articles_trans)
        show ?thesis using assms None g1 g2 g3 s3 \<open>x1 = Inl err\<close> True Inr
          by (cases x3) (simp_all add: TagService_Create_def Let_def)
      qed
    qed
  qed
qed

lemma FindOrCreateByName_same:
  assumes "FindOrCreateByName tbl name d = (r, d')"
  shows "same_articles d d'"
proof (cases "TrimSpace name = []")
  case True
  then show ?thesis using assms by (simp add: FindOrCreateByName_def)
next
  case False
  obtain x1 d1 where g1: "tagRepo_GetByName (TrimSpace name) d = (x1, d1)"
    by (cases "tagRepo_GetByName (TrimSpace name) d")
  have s1: "same_articles d d1" using g1 by (rule tagRepo_GetByName_same)
  show ?thesis
  proof (cases x1)
    case (Inr t)
    then show ?thesis using assms False g1 s1 by (simp add: FindOrCreateByName_def Let_def)
  next
    case (Inl err)
    show ?thesis
    proof (cases "err = ErrRecordNotFound")
      case False
      then show ?thesis using assms \<open>TrimSpace name \<noteq> []\<close> g1 s1 Inl
        by (simp add: FindOrCreateByName_def Let_def)
    next
      case True
      then have "TagService_Create tbl (Some (TrimSpace name)) d1 = (r, d')"
        using assms \<open>TrimSpace name \<noteq> []\<close> g1 Inl by (simp add: FindOrCreateByName_def Let_def)
      then show ?thesis using s1 TagService_Create_same same_articles_trans by blast
    qed
  qed
qed

lemma ProcessTagNames_loop_same:
  "ProcessTagNames_loop tbl names seen tgs d = (r, d') \<Longrightarrow> same_articles d d'"
proof (induction names arbitrary: seen tgs d)
  case Nil
  then show ?case by simp
next
  case (Cons name rest)
  let ?n = "TrimSpace name"
  show ?case
  proof (cases "?n = [] \<or> ?n \<in> seen")
    case True
    then have "ProcessTagNames_loop tbl rest seen tgs d = (r, d')"
      using Cons.prems by (auto simp: Let_def split: if_splits)
    then show ?thesis by (rule Cons.IH)
  next
    case False
    obtain x1 d1 where g1: "FindOrCreateByName tbl ?n d = (x1, d1)"
      by (cases "FindOrCreateByName tbl ?n d")
    have s1: "same_articles d d1" using g1 by (rule FindOrCreateByName_same)
    show ?thesis
    proof (cases x1)
      case (Inl err)
      then show ?thesis using Cons.prems False g1 s1 by (simp add: Let_def)
    next
      case (Inr t)
      then have "ProcessTagNames_loop tbl rest (insert ?n seen) (tgs @ [t]) d1 = (r, d')"
        using Cons.prems False g1 by (simp add: Let_def)
      then have "same_articles d1 d'" by (rule Cons.IH)
      then show ?thesis using s1 same_articles_trans by blast
    qed
  qed
qed

lemma processTagNames_same: "processTagNames tbl names d = (r, d') \<Longrightarrow> same_articles d d'"
  by (simp add: processTagNames_def ProcessTagNames_def ProcessTagNames_loop_same)

lemma same_articles_simps:
  assumes "same_articles d d'"
  shows "article_row i d' = article_row i d" "timestamp_of i d' = timestamp_of i d"
    "primary_keys d' = primary_keys d" "published_has_timestamp d' = published_has_timestamp d"
  using assms
  by (simp_all add: same_articles_def article_row_def timestamp_of_def primary_keys_def
      published_has_timestamp_def)

lemma step_ok_same:
  "same_articles d d' \<Longrightarrow> primary_keys d \<Longrightarrow> published_has_timestamp d \<Longrightarrow> step_ok now d d'"
  by (simp add: step_ok_def same_articles_simps)

lemma step_ok_after_same:
  "same_articles d d1 \<Longrightarrow> step_ok now d1 d2 \<Longrightarrow> step_ok now d d2"
  by (simp add: step_ok_def same_articles_simps)

lemma find_ID_map:
  assumes "distinct (map ID rows)"
  shows "find (\<lambda>r. ID r = j) (map (\<lambda>r. if ID r = ID a then a else r) rows)
         = (if j = ID a then (if ID a \<in> ID ` set rows then Some a else None)
            else find (\<lambda>r. ID r = j) rows)"
  using assms by (induction rows) auto

lemma find_ID_None: "find (\<lambda>r. ID r = j) rows = None \<longleftrightarrow> j \<notin> ID ` set rows"
  by (auto simp: find_None_iff)

lemma find_ID_append:
  "find (\<lambda>r. ID r = j) (rows @ [a]) =
     (case find (\<lambda>r. ID r = j) rows of Some r \<Rightarrow> Some r
      | None \<Rightarrow> if ID a = j then Some a else None)"
  by (induction rows) auto

lemma Validate_evolved:
  assumes "Status a = StatusPublished \<longrightarrow> PublishedAt a \<noteq> None" and "Validate now a = Inr a'"
  shows "a' = a"
  using assms
  by (auto simp: Validate_def validatePublishedStatus_def split: option.splits if_splits)

lemma Validate_published:
  assumes "Validate now a = Inr a'"
  shows "ID a' = ID a" and "Status a' = StatusPublished \<longrightarrow> PublishedAt a' \<noteq> None"
    and "PublishedAt a' = PublishedAt a \<or> (PublishedAt a = None \<and> PublishedAt a' = Some now \<and> Status a' = StatusPublished)"
  using assms
  by (auto simp: Validate_def validatePublishedStatus_def split: option.splits if_splits)

lemma articleRepo_Update_step:
  assumes pk: "primary_keys d" and inv: "published_has_timestamp d"
    and a0: "find (\<lambda>a. ID a = i \<and> DeletedAt a = None) (articles d) = Some a0"
    and ev: "evolves now a0 a"
    and up: "articleRepo_Update now a d = (r, d')"
  shows "step_ok now d d'"
proof -
  obtain f d1 where c: "call (ArticleUpdate (ID a)) d = (f, d1)"
    by (cases "call (ArticleUpdate (ID a)) d")
  have s1: "same_articles d d1" using c by (rule call_same)
  show ?thesis
  proof (cases "f \<or> (\<exists>e. Validate now a = Inl e)")
    case True
    then have "d' = d1" using up c
      by (auto simp: articleRepo_Update_def split: sum.splits bool.splits)
    then show ?thesis using s1 pk inv by (simp add: step_ok_same)
  next
    case False
    then obtain a' where v: "Validate now a = Inr a'" by (cases "Validate now a") auto
    have "a' = a" using ev v by (auto simp: evolves_def intro: Validate_evolved)
    then have d': "d' = d1\<lparr>articles := save_row a (articles d1)\<rparr>"
      using up c False v by (auto simp: articleRepo_Update_def)
    have rows: "articles d1 = articles d" "next_article_id d1 = next_article_id d"
      using s1 by (simp_all add: same_articles_def)
    have a0in: "a0 \<in> set (articles d)" and ida0: "ID a0 = i"
      using a0 by (auto simp: find_Some_iff)
    have ida: "ID a = i" using ev ida0 by (simp add: evolves_def)
    have ex: "ID a \<in> ID ` set (articles d)"
      using a0in ida ida0 by (auto intro!: image_eqI [where x = a0])
    have dist: "distinct (map ID (articles d))" using pk by (simp add: primary_keys_def)
    have sv: "save_row a (articles d) = map (\<lambda>r. if ID r = ID a then a else r) (articles d)"
      using ex by (auto simp: save_row_def list_ex_iff)
    have st0: "article_row i d = Some a0"
    proof -
      obtain b where b: "find (\<lambda>r. ID r = i) (articles d) = Some b"
        using ex ida by (cases "find (\<lambda>r. ID r = i) (articles d)") (auto simp: find_ID_None)
      then have "b \<in> set (articles d)" "ID b = i" by (auto simp: find_Some_iff)
      moreover have "inj_on ID (set (articles d))" using dist by (simp add: distinct_map)
      ultimately have "b = a0" using a0in ida0 by (auto dest: inj_onD)
      then show ?thesis using b by (simp add: article_row_def)
    qed
    have st: "article_row j d' = (if j = i then Some a else article_row j d)" for j
    proof -
      have "article_row j d' = find (\<lambda>r. ID r = j) (map (\<lambda>r. if ID r = ID a then a else r) (articles d))"
        by (simp add: article_row_def d' rows sv)
      also have "\<dots> = (if j = ID a then Some a else find (\<lambda>r. ID r = j) (articles d))"
        using ex by (simp only: find_ID_map [OF dist] if_True)
      finally show ?thesis by (simp add: ida article_row_def)
    qed
    have pk': "primary_keys d'"
    proof -
      have "map ID (save_row a (articles d)) = map ID (articles d)"
        by (simp add: sv)
      moreover have "\<forall>x\<in>set (save_row a (articles d)). ID x < next_article_id d"
        using pk ex by (auto simp: sv primary_keys_def)
      ultimately show ?thesis using pk by (simp add: primary_keys_def d' rows)
    qed
    have inv': "published_has_timestamp d'"
      using inv ev by (auto simp: published_has_timestamp_def d' rows sv evolves_def)
    show ?thesis
      unfolding step_ok_def
      using pk' inv' ev st0 by (auto simp: timestamp_of_def st evolves_def split: if_splits)
  qed
qed

lemma articleRepo_Create_step:
  assumes pk: "primary_keys d" and inv: "published_has_timestamp d"
    and ts: "PublishedAt a = (if Status a = StatusPublished then Some now else None)"
    and cr: "articleRepo_Create now a d = (r, d')"
  shows "step_ok now d d'"
proof -
  obtain f d1 where c: "call ArticleCreate d = (f, d1)" by (cases "call ArticleCreate d")
  have s1: "same_articles d d1" using c by (rule call_same)
  show ?thesis
  proof (cases "f \<or> (\<exists>e. Validate now a = Inl e)")
    case True
    then have "d' = d1" using cr c
      by (auto simp: articleRepo_Create_def split: sum.splits bool.splits)
    then show ?thesis using s1 pk inv by (simp add: step_ok_same)
  next
    case False
    then obtain a' where v: "Validate now a = Inr a'" by (cases "Validate now a") auto
    have "a' = a" using ts v by (auto intro: Validate_evolved)
    have rows: "articles d1 = articles d" "next_article_id d1 = next_article_id d"
      using s1 by (simp_all add: same_articles_def)
    let ?row = "a\<lparr>ID := next_article_id d, CreatedAt := now\<rparr>"
    have d': "d' = d1\<lparr>articles := articles d @ [?row], next_article_id := next_article_id d + 1\<rparr>"
      using cr c False v \<open>a' = a\<close> by (auto simp: articleRepo_Create_def Let_def rows)
    have fresh: "next_article_id d \<notin> ID ` set (articles d)"
      using pk by (auto simp: primary_keys_def)
    have st: "article_row j d' = (case article_row j d of Some r \<Rightarrow> Some r
                | None \<Rightarrow> if j = next_article_id d then Some ?row else None)" for j
      by (auto simp: article_row_def d' find_ID_append split: option.splits)
    have pk': "primary_keys d'"
      using pk fresh by (auto simp: primary_keys_def d' less_Suc_eq)
    have inv': "published_has_timestamp d'"
      using inv ts by (auto simp: published_has_timestamp_def d')
    show ?thesis
      unfolding step_ok_def
      using pk' inv' ts by (auto simp: timestamp_of_def st split: option.splits if_splits)
  qed
qed

lemma wrapped_result:
  "(case f of (Inl err, d2) \<Rightarrow> (Inl (w err), d2) | (Inr x, d2) \<Rightarrow> (Inr x, d2)) = (r, d')
   \<Longrightarrow> \<exists>r2. f = (r2, d')"
  by (cases f) (auto split: sum.splits)

lemma Create_status_timestamp:
  "PublishedAt article = None \<Longrightarrow>
   PublishedAt (Create_status now req article)
     = (if Status (Create_status now req article) = StatusPublished then Some now else None)"
  by (simp add: Create_status_def Let_def)

lemma Create_tags_result:
  assumes "Create_tags tbl req article d = (x, d1)"
  shows "same_articles d d1"
    and "x = Inr a \<Longrightarrow> Status a = Status article \<and> PublishedAt a = PublishedAt article"
proof -
  show "same_articles d d1"
  proof (cases "length (Create_TagNames req) > 0")
    case False
    then show ?thesis using assms by (simp add: Create_tags_def)
  next
    case True
    obtain y d2 where g: "processTagNames tbl (Create_TagNames req) d = (y, d2)"
      by (cases "processTagNames tbl (Create_TagNames req) d")
    then have "d1 = d2" using assms True by (cases y) (simp_all add: Create_tags_def)
    then show ?thesis using processTagNames_same [OF g] by simp
  qed
  show "x = Inr a \<Longrightarrow> Status a = Status article \<and> PublishedAt a = PublishedAt article"
    using assms by (auto simp: Create_tags_def split: if_splits prod.splits sum.splits)
qed

lemma Create_store_step:
  assumes pk: "primary_keys d" and inv: "published_has_timestamp d"
    and none: "PublishedAt article = None"
    and cs: "Create_store tbl now req article d = (r, d')"
  shows "step_ok now d d'"
proof -
  obtain x1 d1 where g1: "Create_tags tbl req (Create_status now req article) d = (x1, d1)"
    by (cases "Create_tags tbl req (Create_status now req article) d")
  have s1: "same_articles d d1" using g1 by (rule Create_tags_result(1))
  have pk1: "primary_keys d1" "published_has_timestamp d1"
    using s1 pk inv by (simp_all add: same_articles_simps)
  show ?thesis
  proof (cases x1)
    case (Inl err)
    then have "d' = d1" using cs g1 by (simp add: Create_store_def)
    then show ?thesis using s1 pk inv by (simp add: step_ok_same)
  next
    case (Inr a)
    have ts: "PublishedAt a = (if Status a = StatusPublished then Some now else None)"
      using Create_tags_result(2) [OF g1 Inr] Create_status_timestamp [OF none] by simp
    have "\<exists>r2. articleRepo_Create now a d1 = (r2, d')"
      using cs g1 Inr by (intro wrapped_result) (simp add: Create_store_def)
    then obtain r2 where "articleRepo_Create now a d1 = (r2, d')" ..
    then have "step_ok now d1 d'" using ts by (rule articleRepo_Create_step [OF pk1, rotated])
    then show ?thesis using s1 by (rule step_ok_after_same [rotated])
  qed
qed

lemma Create_step:
  assumes pk: "primary_keys d" and inv: "published_has_timestamp d"
    and cr: "Create tbl now authorID rq d = (r, d')"
  shows "step_ok now d d'"
proof (cases "validateCreateRequest rq")
  case (Inl err)
  then have "d' = d" using cr by (simp add: Create_def)
  then show ?thesis using pk inv by (simp add: step_ok_same)
next
  case (Inr req)
  obtain x1 d1 where g1: "userRepo_GetByID authorID d = (x1, d1)"
    by (cases "userRepo_GetByID authorID d")
  have s1: "same_articles d d1" using g1 by (rule userRepo_GetByID_same)
  show ?thesis
  proof (cases x1)
    case (Inl err)
    then have "d' = d1" using cr Inr g1 by (simp add: Create_def)
    then show ?thesis using s1 pk inv by (simp add: step_ok_same)
  next
    case author: (Inr author)
    obtain x2 d2 where g2: "ArticleService_generateUniqueSlug tbl (Create_Title req) d1 = (x2, d2)"
      by (cases "ArticleService_generateUniqueSlug tbl (Create_Title req) d1")
    have s2: "same_articles d d2"
      using s1 ArticleService_generateUniqueSlug_same [OF g2] by (rule same_articles_trans)
    show ?thesis
    proof (cases x2)
      case (Inl err)
      then have "d' = d2" using cr Inr g1 g2 author by (simp add: Create_def)
      then show ?thesis using s2 pk inv by (simp add: step_ok_same)
    next
      case slug: (Inr slug)
      let ?a = "\<lparr>ID = 0, Title = TrimSpace (Create_Title req), Slug = slug,
                        Content = TrimSpace (Create_Content req),
                        Excerpt = TrimSpace (Create_Excerpt req), AuthorID = authorID,
                        CategoryID = None, Tags = [], Status = StatusDraft, ViewCount = 0,
                        LikeCount = 0, CommentCount = 0, PublishedAt = None, CreatedAt = 0,
                        DeletedAt = None\<rparr>"
      have pk2: "primary_keys d2" "published_has_timestamp d2"
        using s2 pk inv by (simp_all add: same_articles_simps)
      show ?thesis
      proof (cases "Create_CategoryID req")
        case None
        then have "Create_store tbl now req ?a d2 = (r, d')"
          using cr Inr g1 g2 author slug by (simp add: Create_def Let_def)
        then have "step_ok now d2 d'" by (rule Create_store_step [OF pk2 _, rotated]) simp
        then show ?thesis using s2 by (rule step_ok_after_same [rotated])
      next
        case (Some cid)
        obtain x3 d3 where g3: "categoryRepo_GetByID cid d2 = (x3, d3)"
          by (cases "categoryRepo_GetByID cid d2")
        have s3: "same_articles d d3"
          using s2 categoryRepo_GetByID_same [OF g3] by (rule same_articles_trans)
        show ?thesis
        proof (cases x3)
          case (Inl err)
          then have "d' = d3" using cr Inr g1 g2 g3 author slug Some by (simp add: Create_def Let_def)
          then show ?thesis using s3 pk inv by (simp add: step_ok_same)
        next
          case cat: (Inr category)
          have pk3: "primary_keys d3" "published_has_timestamp d3"
            using s3 pk inv by (simp_all add: same_articles_simps)
          have "Create_store tbl now req (?a\<lparr>CategoryID := Some cid\<rparr>) d3 = (r, d')"
            using cr Inr g1 g2 g3 author slug Some cat by (simp add: Create_def Let_def)
          then have "step_ok now d3 d'" by (rule Create_store_step [OF pk3 _, rotated]) simp
          then show ?thesis using s3 by (rule step_ok_after_same [rotated])
        qed
      qed
    qed
  qed
qed

lemma pub_eq_refl [simp]: "pub_eq a a"
  by (simp add: pub_eq_def)

lemma pub_eq_trans: "pub_eq a b \<Longrightarrow> pub_eq b c \<Longrightarrow> pub_eq a c"
  by (simp add: pub_eq_def)

lemma evolves_pub_eq: "evolves now a0 a \<Longrightarrow> pub_eq a a' \<Longrightarrow> evolves now a0 a'"
  by (auto simp: evolves_def pub_eq_def)

lemma Update_title_result:
  assumes "Update_title tbl req (a, u) d = (x, d')"
  shows "same_articles d d'" and "x = Inr (a', u') \<Longrightarrow> pub_eq a a'"
proof -
  let ?c = "Update_Title req \<noteq> [] \<and> Update_Title req \<noteq> Title a"
  let ?a1 = "a\<lparr>Title := TrimSpace (Update_Title req)\<rparr>"
  obtain y d1 where g: "ArticleService_generateUniqueSlug tbl (Title ?a1) d = (y, d1)"
    by (cases "ArticleService_generateUniqueSlug tbl (Title ?a1) d")
  have s: "same_articles d d1" using g by (rule ArticleService_generateUniqueSlug_same)
  show "same_articles d d'"
    using assms g s by (cases ?c; cases y) (simp_all add: Update_title_def Let_def)
  show "x = Inr (a', u') \<Longrightarrow> pub_eq a a'"
    using assms g by (cases ?c; cases y) (auto simp: Update_title_def Let_def pub_eq_def)
qed

lemma Update_content_pub: "pub_eq a (fst (Update_content req (a, u)))"
  by (simp add: Update_content_def pub_eq_def)

lemma Update_excerpt_pub: "pub_eq a (fst (Update_excerpt req (a, u)))"
  by (simp add: Update_excerpt_def pub_eq_def)

lemma Update_category_result:
  assumes "Update_category req (a, u) d = (x, d')"
  shows "same_articles d d'" and "x = Inr (a', u') \<Longrightarrow> pub_eq a a'"
proof -
  show "same_articles d d'"
    using assms
    by (auto simp: Update_category_def split: option.splits if_splits prod.splits sum.splits
        dest: categoryRepo_GetByID_same)
  show "x = Inr (a', u') \<Longrightarrow> pub_eq a a'"
    using assms
    by (auto simp: Update_category_def pub_eq_def split: option.splits if_splits prod.splits sum.splits)
qed

lemma Update_status_evolves:
  assumes "Status a \<noteq> StatusPublished \<or> PublishedAt a \<noteq> None"
  shows "evolves now a (fst (Update_status now req (a, u)))"
  using assms by (auto simp: Update_status_def evolves_def Let_def)

lemma Update_tags_result:
  assumes "Update_tags tbl req (a, u) d = (x, d')"
  shows "same_articles d d'" and "x = Inr (a', u') \<Longrightarrow> pub_eq a a'"
proof -
  show "same_articles d d'"
    using assms
    by (auto simp: Update_tags_def split: option.splits prod.splits sum.splits
        dest: processTagNames_same)
  show "x = Inr (a', u') \<Longrightarrow> pub_eq a a'"
    using assms
    by (auto simp: Update_tags_def pub_eq_def split: option.splits prod.splits sum.splits)
qed

lemma Update_save_step:
  assumes pk: "primary_keys d" and inv: "published_has_timestamp d"
    and a0: "find (\<lambda>a. ID a = i \<and> DeletedAt a = None) (articles d) = Some a0"
    and ev: "evolves now a0 a"
    and sv: "Update_save now (a, u) d = (r, d')"
  shows "step_ok now d d'"
proof (cases u)
  case False
  then have "d' = d" using sv by (simp add: Update_save_def)
  then show ?thesis using pk inv by (simp add: step_ok_same)
next
  case True
  then have "\<exists>r2. articleRepo_Update now a d = (r2, d')"
    using sv by (intro wrapped_result) (simp add: Update_save_def)
  then obtain r2 where "articleRepo_Update now a d = (r2, d')" ..
  then show ?thesis by (rule articleRepo_Update_step [OF pk inv a0 ev])
qed

lemma GetByID_found:
  assumes "articleRepo_GetByID i d = (Inr a0, d1)"
  shows "find (\<lambda>a. ID a = i \<and> DeletedAt a = None) (articles d1) = Some a0"
  using assms
  by (auto simp: articleRepo_GetByID_def split: prod.splits bool.splits option.splits)

lemma inv_row:
  assumes "published_has_timestamp d" and "find P (articles d) = Some a0"
  shows "Status a0 \<noteq> StatusPublished \<or> PublishedAt a0 \<noteq> None"
  using assms by (auto simp: published_has_timestamp_def find_Some_iff)

lemma Update_step:
  assumes pk: "primary_keys d" and inv: "published_has_timestamp d"
    and up: "Update tbl now i authorID rq d = (r, d')"
  shows "step_ok now d d'"
proof (cases "validateUpdateRequest rq")
  case (Inl err)
  then have "d' = d" using up by (simp add: Update_def)
  then show ?thesis using pk inv by (simp add: step_ok_same)
next
  case (Inr req)
  obtain x1 d1 where g1: "articleRepo_GetByID i d = (x1, d1)" by (cases "articleRepo_GetByID i d")
  have s1: "same_articles d d1" using g1 by (rule articleRepo_GetByID_same)
  show ?thesis
  proof (cases x1)
    case (Inl err)
    then have "d' = d1" using up Inr g1 by (simp add: Update_def)
    then show ?thesis using s1 pk inv by (simp add: step_ok_same)
  next
    case a0: (Inr a0)
    have f1: "find (\<lambda>a. ID a = i \<and> DeletedAt a = None) (articles d1) = Some a0"
      using g1 a0 by (auto intro: GetByID_found)
    have inv1: "published_has_timestamp d1" and pk1: "primary_keys d1"
      using s1 pk inv by (simp_all add: same_articles_simps)
    have r0: "Status a0 \<noteq> StatusPublished \<or> PublishedAt a0 \<noteq> None"
      using inv1 f1 by (rule inv_row)
    show ?thesis
    proof (cases "AuthorID a0 \<noteq> authorID")
      case True
      then have "d' = d1" using up Inr g1 a0 by (simp add: Update_def)
      then show ?thesis using s1 pk inv by (simp add: step_ok_same)
    next
      case False
      obtain x2 d2 where g2: "Update_title tbl req (a0, False) d1 = (x2, d2)"
        by (cases "Update_title tbl req (a0, False) d1")
      have s2: "same_articles d d2"
        using s1 Update_title_result(1) [OF g2] by (rule same_articles_trans)
      show ?thesis
      proof (cases x2)
        case (Inl err)
        then have "d' = d2" using up Inr g1 a0 False g2 by (simp add: Update_def)
        then show ?thesis using s2 pk inv by (simp add: step_ok_same)
      next
        case au2: (Inr au2)
        obtain a2 u2 where au2': "au2 = (a2, u2)" by (cases au2)
        have p2: "pub_eq a0 a2" using Update_title_result(2) [OF g2] au2 au2' by simp
        let ?au3 = "Update_excerpt req (Update_content req (a2, u2))"
        obtain a3 u3 where au3: "?au3 = (a3, u3)" by (cases ?au3)
        have p3: "pub_eq a0 a3"
        proof -
          obtain b v where bv: "Update_content req (a2, u2) = (b, v)"
            by (cases "Update_content req (a2, u2)")
          have "pub_eq a2 b" using Update_content_pub [of a2 req u2] bv by simp
          moreover have "pub_eq b a3" using Update_excerpt_pub [of b req v] bv au3 by simp
          ultimately show ?thesis using p2 pub_eq_trans by blast
        qed
        obtain x4 d4 where g4: "Update_category req (a3, u3) d2 = (x4, d4)"
          by (cases "Update_category req (a3, u3) d2")
        have s4: "same_articles d d4"
          using s2 Update_category_result(1) [OF g4] by (rule same_articles_trans)
        show ?thesis
        proof (cases x4)
          case (Inl err)
          then have "d' = d4" using up Inr g1 a0 False g2 au2 au2' au3 g4 by (simp add: Update_def)
          then show ?thesis using s4 pk inv by (simp add: step_ok_same)
        next
          case au4: (Inr au4)
          obtain a4 u4 where au4': "au4 = (a4, u4)" by (cases au4)
          have p4: "pub_eq a0 a4"
            using p3 Update_category_result(2) [OF g4] au4 au4' pub_eq_trans by blast
          let ?au5 = "Update_status now req (a4, u4)"
          obtain a5 u5 where au5: "?au5 = (a5, u5)" by (cases ?au5)
          have "evolves now a4 a5"
            using Update_status_evolves [of a4 now req u4] r0 p4 au5 by (simp add: pub_eq_def)
          then have e5: "evolves now a0 a5" using p4 by (auto simp: evolves_def pub_eq_def)
          obtain x6 d6 where g6: "Update_tags tbl req (a5, u5) d4 = (x6, d6)"
            by (cases "Update_tags tbl req (a5, u5) d4")
          have s6: "same_articles d d6"
            using s4 Update_tags_result(1) [OF g6] by (rule same_articles_trans)
          show ?thesis
          proof (cases x6)
            case (Inl err)
            then have "d' = d6"
              using up Inr g1 a0 False g2 au2 au2' au3 g4 au4 au4' au5 g6 by (simp add: Update_def)
            then show ?thesis using s6 pk inv by (simp add: step_ok_same)
          next
            case au6: (Inr au6)
            obtain a6 u6 where au6': "au6 = (a6, u6)" by (cases au6)
            have e6: "evolves now a0 a6"
              using e5 Update_tags_result(2) [OF g6] au6 au6' evolves_pub_eq by blast
            have sv: "Update_save now (a6, u6) d6 = (r, d')"
              using up Inr g1 a0 False g2 au2 au2' au3 g4 au4 au4' au5 g6 au6 au6'
              by (simp add: Update_def)
            have s16: "same_articles d1 d6" using s1 s6 by (simp add: same_articles_def)
            have f6: "find (\<lambda>a. ID a = i \<and> DeletedAt a = None) (articles d6) = Some a0"
              using f1 s16 by (simp add: same_articles_def)
            have "primary_keys d6" "published_has_timestamp d6"
              using s6 pk inv by (simp_all add: same_articles_simps)
            then have "step_ok now d6 d'" using f6 e6 sv by (rule Update_save_step)
            then show ?thesis using s6 by (rule step_ok_after_same [rotated])
          qed
        qed
      qed
    qed
  qed
qed

lemma changeStatus_step:
  assumes pk: "primary_keys d" and inv: "published_has_timestamp d"
    and cs: "changeStatus now i authorID status d = (r, d')"
  shows "step_ok now d d'"
proof -
  obtain x1 d1 where g1: "articleRepo_GetByID i d = (x1, d1)" by (cases "articleRepo_GetByID i d")
  have s1: "same_articles d d1" using g1 by (rule articleRepo_GetByID_same)
  have inv1: "published_has_timestamp d1" and pk1: "primary_keys d1"
    using s1 pk inv by (simp_all add: same_articles_simps)
  show ?thesis
  proof (cases x1)
    case (Inl err)
    then have "d' = d1" using cs g1 by (simp add: changeStatus_def)
    then show ?thesis using s1 pk inv by (simp add: step_ok_same)
  next
    case a0: (Inr a0)
    have f1: "find (\<lambda>a. ID a = i \<and> DeletedAt a = None) (articles d1) = Some a0"
      using g1 a0 by (auto intro: GetByID_found)
    have r0: "Status a0 \<noteq> StatusPublished \<or> PublishedAt a0 \<noteq> None"
      using inv1 f1 by (rule inv_row)
    show ?thesis
    proof (cases "AuthorID a0 \<noteq> authorID \<or> Status a0 = status")
      case True
      then have "d' = d1" using cs g1 a0 by (auto simp: changeStatus_def split: if_splits)
      then show ?thesis using s1 pk inv by (simp add: step_ok_same)
    next
      case False
      let ?a1 = "a0\<lparr>Status := status\<rparr>"
      let ?a2 = "if status = StatusPublished \<and> PublishedAt ?a1 = None
                 then ?a1\<lparr>PublishedAt := Some now\<rparr> else ?a1"
      have ev: "evolves now a0 ?a2" using r0 False by (auto simp: evolves_def)
      have "\<exists>r2. articleRepo_Update now ?a2 d1 = (r2, d')"
        using cs g1 a0 False by (intro wrapped_result) (simp add: changeStatus_def Let_def)
      then obtain r2 where "articleRepo_Update now ?a2 d1 = (r2, d')" ..
      then have "step_ok now d1 d'" by (rule articleRepo_Update_step [OF pk1 inv1 f1 ev])
      then show ?thesis using s1 by (rule step_ok_after_same [rotated])
    qed
  qed
qed

lemma apply_op_step:
  assumes "primary_keys d" and "published_has_timestamp d"
  shows "step_ok now d (snd (apply_op tbl now op d))"
proof (cases op)
  case (OpCreate authorID rq)
  then show ?thesis using Create_step [OF assms, of tbl now authorID rq] 
    by (cases "Create tbl now authorID rq d") auto
next
  case (OpUpdate i authorID rq)
  then show ?thesis using Update_step [OF assms, of tbl now i authorID rq]
    by (cases "Update tbl now i authorID rq d") auto
next
  case (OpPublish i authorID)
  then show ?thesis using changeStatus_step [OF assms, of now i authorID StatusPublished]
    by (cases "changeStatus now i authorID StatusPublished d") (auto simp: Publish_def)
next
  case (OpUnpublish i authorID)
  then show ?thesis using changeStatus_step [OF assms, of now i authorID StatusDraft]
    by (cases "changeStatus now i authorID StatusDraft d") (auto simp: Unpublish_def)
next
  case (OpArchive i authorID)
  then show ?thesis using changeStatus_step [OF assms, of now i authorID StatusArchived]
    by (cases "changeStatus now i authorID StatusArchived d") (auto simp: Archive_def)
qed

lemma run_ops_append: "run_ops tbl (xs @ ys) d = run_ops tbl ys (run_ops tbl xs d)"
  by (induction xs arbitrary: d) auto

lemma run_ops_keeps:
  "primary_keys d \<Longrightarrow> published_has_timestamp d \<Longrightarrow>
   primary_keys (run_ops tbl ops d) \<and> published_has_timestamp (run_ops tbl ops d) \<and>
   (\<forall>i t. timestamp_of i d = Some t \<longrightarrow> timestamp_of i (run_ops tbl ops d) = Some t)"
proof (induction ops arbitrary: d)
  case Nil
  then show ?case by simp
next
  case (Cons x ops)
  obtain now op where x: "x = (now, op)" by (cases x)
  let ?d1 = "snd (apply_op tbl now op d)"
  have st: "step_ok now d ?d1" using Cons.prems by (rule apply_op_step)
  then have "primary_keys ?d1" "published_has_timestamp ?d1" by (simp_all add: step_ok_def)
  then have "primary_keys (run_ops tbl ops ?d1) \<and> published_has_timestamp (run_ops tbl ops ?d1) \<and>
   (\<forall>i t. timestamp_of i ?d1 = Some t \<longrightarrow> timestamp_of i (run_ops tbl ops ?d1) = Some t)"
    by (rule Cons.IH)
  then show ?case using st x by (simp add: step_ok_def)
qed

lemmas eval_defs = demo_db_def demo_article_def Publish_def Archive_def Unpublish_def changeStatus_def
  articleRepo_GetByID_def articleRepo_Update_def call_def Validate_def validateTitle_def
  validateContent_def validatePublishedStatus_def save_row_def TrimSpace_def TrimFunc_def
  is_space_def len_def utf8_width_def StatusDraft_def StatusPublished_def StatusArchived_def
  str_def timestamp_of_def article_row_def Let_def

text \<open>
  Claim C1. Start from any store in which the keys of the articles table are distinct
  and every published article has a timestamp, and run any sequence of Create, Update,
  Publish, Unpublish and Archive, under any schedule of repository failures. Then, at
  every point of the run: every article with status published has a timestamp; a
  timestamp that the store holds for an article is still the same after any further
  operations (archiving and unpublishing included); and a timestamp appears for an
  article only in an operation after which the article is published, and it is the
  clock reading of that operation.
\<close>

theorem published_timestamp_set_once:
  assumes "primary_keys d" and "published_has_timestamp d"
  shows "published_has_timestamp (run_ops tbl (pre @ post) d)
    \<and> (\<forall>i t. timestamp_of i (run_ops tbl pre d) = Some t
          \<longrightarrow> timestamp_of i (run_ops tbl (pre @ post) d) = Some t)
    \<and> (\<forall>i t now op. timestamp_of i (run_ops tbl pre d) = None
          \<longrightarrow> timestamp_of i (run_ops tbl (pre @ [(now, op)]) d) = Some t
          \<longrightarrow> t = now \<and> (\<exists>a. article_row i (run_ops tbl (pre @ [(now, op)]) d) = Some a
                              \<and> Status a = StatusPublished))"
proof (intro conjI allI impI)
  let ?d1 = "run_ops tbl pre d"
  have k1: "primary_keys ?d1" "published_has_timestamp ?d1"
    using run_ops_keeps [OF assms, of tbl pre] by simp_all
  show "published_has_timestamp (run_ops tbl (pre @ post) d)"
    using run_ops_keeps [OF assms, of tbl "pre @ post"] by simp
  show "timestamp_of i (run_ops tbl (pre @ post) d) = Some t"
    if "timestamp_of i (run_ops tbl pre d) = Some t" for i t
    using that run_ops_keeps [OF k1, of tbl post] by (simp add: run_ops_append)
  fix i t now op
  assume none: "timestamp_of i (run_ops tbl pre d) = None"
    and some: "timestamp_of i (run_ops tbl (pre @ [(now, op)]) d) = Some t"
  have "step_ok now ?d1 (snd (apply_op tbl now op ?d1))" using k1 by (rule apply_op_step)
  then have "t = now \<and> (\<exists>a. article_row i (run_ops tbl (pre @ [(now, op)]) d) = Some a
                              \<and> Status a = StatusPublished)"
    using none some by (simp add: step_ok_def run_ops_append)
  then show "t = now"
    and "\<exists>a. article_row i (run_ops tbl (pre @ [(now, op)]) d) = Some a \<and> Status a = StatusPublished"
    by simp_all
qed

theorem published_timestamp_set_once_witness:
  "primary_keys demo_db \<and> published_has_timestamp demo_db
   \<and> timestamp_of 1 demo_db = None
   \<and> timestamp_of 1 (run_ops (\<lambda>r. r) [(200, OpPublish 1 7)] demo_db) = Some 200
   \<and> timestamp_of 1 (run_ops (\<lambda>r. r)
        ([(200, OpPublish 1 7)] @ [(300, OpArchive 1 7), (400, OpPublish 1 7)]) demo_db) = Some 200
   \<and> published_has_timestamp (run_ops (\<lambda>r. r)
        ([(200, OpPublish 1 7)] @ [(300, OpArchive 1 7), (400, OpPublish 1 7)]) demo_db)"
proof -
  have pk: "primary_keys demo_db"
    by (simp add: primary_keys_def demo_db_def demo_article_def)
  have inv: "published_has_timestamp demo_db"
    by (simp add: published_has_timestamp_def demo_db_def demo_article_def StatusDraft_def
        StatusPublished_def str_def)
  have t0: "timestamp_of 1 demo_db = None"
    by (simp add: timestamp_of_def article_row_def demo_db_def demo_article_def)
  have t1: "timestamp_of 1 (run_ops (\<lambda>r. r) [(200, OpPublish 1 7)] demo_db) = Some 200"
    by (simp add: eval_defs)
  show ?thesis
    using pk inv t0 t1
      published_timestamp_set_once [OF pk inv, of "\<lambda>r. r" "[(200, OpPublish 1 7)]"
        "[(300, OpArchive 1 7), (400, OpPublish 1 7)]"]
    by simp
qed

section \<open>Repeated status changes\<close>

lemma call_log: "call c d = (f, d') \<Longrightarrow> calls d' = calls d @ [c] \<and> articles d' = articles d"
  by (auto simp: call_def split: list.splits)

lemma GetByID_log:
  "articleRepo_GetByID i d = (x, d1) \<Longrightarrow>
   calls d1 = calls d @ [ArticleGetByID i] \<and> articles d1 = articles d"
  by (auto simp: articleRepo_GetByID_def split: prod.splits bool.splits option.splits dest: call_log)

lemma find_key_and:
  "distinct (map ID rows) \<Longrightarrow>
   find (\<lambda>r. ID r = i \<and> Q r) rows =
     (case find (\<lambda>r. ID r = i) rows of None \<Rightarrow> None | Some r \<Rightarrow> if Q r then Some r else None)"
proof (induction rows)
  case Nil
  then show ?case by simp
next
  case (Cons r rows)
  show ?case
  proof (cases "ID r = i")
    case True
    then have "i \<notin> ID ` set rows" using Cons.prems by auto
    then have "find (\<lambda>r. ID r = i \<and> Q r) rows = None" by (auto simp: find_None_iff)
    then show ?thesis using True by simp
  next
    case False
    then show ?thesis using Cons by simp
  qed
qed

lemma changeStatus_same:
  assumes "articleRepo_GetByID i d = (Inr a, d1)" and "AuthorID a = authorID" and "Status a = status"
  shows "changeStatus now i authorID status d = (Inr a, d1)"
  using assms by (simp add: changeStatus_def)

lemma save_row_find:
  assumes dist: "distinct (map ID rows)" and a0in: "a0 \<in> set rows"
    and ida: "ID a = ID a0" and del: "DeletedAt a = None"
  shows "find (\<lambda>r. ID r = ID a0 \<and> DeletedAt r = None) (save_row a rows) = Some a"
proof -
  have ex: "ID a \<in> ID ` set rows" using a0in ida by (auto intro!: image_eqI [where x = a0])
  have sv: "save_row a rows = map (\<lambda>r. if ID r = ID a then a else r) rows"
    using ex by (auto simp: save_row_def list_ex_iff)
  have "map ID (save_row a rows) = map ID rows" by (simp add: sv)
  then have dist': "distinct (map ID (save_row a rows))" using dist by simp
  have "find (\<lambda>r. ID r = ID a0) (map (\<lambda>r. if ID r = ID a then a else r) rows)
        = (if ID a0 = ID a then (if ID a \<in> ID ` set rows then Some a else None)
           else find (\<lambda>r. ID r = ID a0) rows)"
    by (rule find_ID_map [OF dist])
  then have "find (\<lambda>r. ID r = ID a0) (save_row a rows) = Some a"
    using ex ida by (simp add: sv)
  then show ?thesis using del by (simp add: find_key_and [OF dist'])
qed

lemma changeStatus_row:
  assumes pk: "primary_keys d" and cs: "changeStatus now i authorID status d = (Inr a, d')"
  shows "find (\<lambda>r. ID r = i \<and> DeletedAt r = None) (articles d') = Some a
         \<and> AuthorID a = authorID \<and> Status a = status"
proof -
  obtain x1 d1 where g1: "articleRepo_GetByID i d = (x1, d1)" by (cases "articleRepo_GetByID i d")
  have rows1: "articles d1 = articles d" using GetByID_log [OF g1] by simp
  obtain a0 where a0: "x1 = Inr a0" using cs g1 by (cases x1) (auto simp: changeStatus_def)
  have f1: "find (\<lambda>r. ID r = i \<and> DeletedAt r = None) (articles d1) = Some a0"
    using g1 a0 by (auto intro: GetByID_found)
  have auth: "AuthorID a0 = authorID" using cs g1 a0 by (auto simp: changeStatus_def split: if_splits)
  show ?thesis
  proof (cases "Status a0 = status")
    case True
    then have "a = a0" "d' = d1" using cs g1 a0 auth by (simp_all add: changeStatus_def)
    then show ?thesis using f1 auth True by simp
  next
    case False
    define a2 where "a2 = (if status = StatusPublished \<and> PublishedAt (a0\<lparr>Status := status\<rparr>) = None
               then a0\<lparr>Status := status, PublishedAt := Some now\<rparr> else a0\<lparr>Status := status\<rparr>)"
    have a2: "ID a2 = ID a0" "AuthorID a2 = AuthorID a0" "Status a2 = status"
      "DeletedAt a2 = DeletedAt a0" "Status a2 = StatusPublished \<longrightarrow> PublishedAt a2 \<noteq> None"
      by (auto simp: a2_def)
    have up: "(case articleRepo_Update now a2 d1 of
                 (Inl err, d2) \<Rightarrow> (Inl (Wrap ''failed to update article status'' err), d2)
               | (Inr saved, d2) \<Rightarrow> (Inr saved, d2)) = (Inr a, d')"
      using cs g1 a0 auth False by (simp add: changeStatus_def Let_def a2_def)
    then have u: "articleRepo_Update now a2 d1 = (Inr a, d')"
      by (cases "articleRepo_Update now a2 d1") (auto split: sum.splits)
    obtain f dc where c: "call (ArticleUpdate (ID a2)) d1 = (f, dc)"
      by (cases "call (ArticleUpdate (ID a2)) d1")
    have rowsc: "articles dc = articles d" using call_log [OF c] rows1 by simp
    have nf: "\<not> f" using u c by (auto simp: articleRepo_Update_def split: sum.splits)
    obtain a' where v: "Validate now a2 = Inr a'"
      using u c nf by (cases "Validate now a2") (auto simp: articleRepo_Update_def)
    have "a' = a2" using a2(5) v by (rule Validate_evolved)
    then have res: "a = a2" "d' = dc\<lparr>articles := save_row a2 (articles dc)\<rparr>"
      using u c nf v by (auto simp: articleRepo_Update_def)
    have a0in: "a0 \<in> set (articles d)" and ida0: "ID a0 = i" and del: "DeletedAt a0 = None"
      using f1 rows1 by (auto simp: find_Some_iff)
    have dist: "distinct (map ID (articles d))" using pk by (simp add: primary_keys_def)
    have "find (\<lambda>r. ID r = ID a0 \<and> DeletedAt r = None) (save_row a2 (articles d)) = Some a2"
      using dist a0in a2(1) by (rule save_row_find) (simp add: a2(4) del)
    then show ?thesis using res rowsc auth a2 ida0 by simp
  qed
qed

lemma changeStatus_again:
  assumes pk: "primary_keys d" and cs: "changeStatus now i authorID status d = (Inr a, d')"
    and nf: "\<not> fst (call (ArticleGetByID i) d')"
  shows "changeStatus now' i authorID status d' = (Inr a, snd (call (ArticleGetByID i) d'))"
proof -
  have r: "find (\<lambda>r. ID r = i \<and> DeletedAt r = None) (articles d') = Some a"
    "AuthorID a = authorID" "Status a = status"
    using changeStatus_row [OF pk cs] by simp_all
  obtain dc where c: "call (ArticleGetByID i) d' = (False, dc)"
    using nf by (cases "call (ArticleGetByID i) d'") auto
  have "articles dc = articles d'" using call_log [OF c] by simp
  then have "articleRepo_GetByID i d' = (Inr a, dc)"
    using c r(1) by (simp add: articleRepo_GetByID_def)
  then show ?thesis using r c by (simp add: changeStatus_same)
qed

text \<open>
  Claim C10. When the article fetched by \<open>changeStatus\<close> already has the requested status
  (and the caller is its author), the call returns that article as it is: the
  articles table is unchanged and the only repository call made is the lookup, so no
  update is issued. A status change that succeeded can be repeated: the second call
  returns the same article and writes nothing (the repository lookup not failing).
  \<open>Publish\<close>, \<open>Unpublish\<close> and \<open>Archive\<close> are \<open>changeStatus\<close> at their status.
\<close>

theorem changeStatus_same_status_no_write:
  "(articleRepo_GetByID i d = (Inr a, d1) \<and> AuthorID a = authorID \<and> Status a = status \<longrightarrow>
      changeStatus now i authorID status d = (Inr a, d1)
      \<and> articles d1 = articles d \<and> calls d1 = calls d @ [ArticleGetByID i])
   \<and> (primary_keys d \<and> changeStatus now i authorID status d = (Inr a, d')
        \<and> \<not> fst (call (ArticleGetByID i) d') \<longrightarrow>
      changeStatus now' i authorID status d' = (Inr a, snd (call (ArticleGetByID i) d'))
      \<and> articles (snd (call (ArticleGetByID i) d')) = articles d'
      \<and> calls (snd (call (ArticleGetByID i) d')) = calls d' @ [ArticleGetByID i])
   \<and> Publish now i authorID d = changeStatus now i authorID StatusPublished d
   \<and> Unpublish now i authorID d = changeStatus now i authorID StatusDraft d
   \<and> Archive now i authorID d = changeStatus now i authorID StatusArchived d"
proof (intro conjI impI)
  assume h: "articleRepo_GetByID i d = (Inr a, d1) \<and> AuthorID a = authorID \<and> Status a = status"
  then show "changeStatus now i authorID status d = (Inr a, d1)" by (simp add: changeStatus_same)
  show "articles d1 = articles d" "calls d1 = calls d @ [ArticleGetByID i]"
    using h GetByID_log [of i d "Inr a" d1] by simp_all
next
  assume h: "primary_keys d \<and> changeStatus now i authorID status d = (Inr a, d')
        \<and> \<not> fst (call (ArticleGetByID i) d')"
  then have pk: "primary_keys d" and cs: "changeStatus now i authorID status d = (Inr a, d')"
    and nf: "\<not> fst (call (ArticleGetByID i) d')"
    by simp_all
  show "changeStatus now' i authorID status d' = (Inr a, snd (call (ArticleGetByID i) d'))"
    using pk cs nf by (rule changeStatus_again)
  obtain f dc where c: "call (ArticleGetByID i) d' = (f, dc)"
    by (cases "call (ArticleGetByID i) d'")
  show "articles (snd (call (ArticleGetByID i) d')) = articles d'"
    using call_log [OF c] c by simp
  show "calls (snd (call (ArticleGetByID i) d')) = calls d' @ [ArticleGetByID i]"
    using call_log [OF c] c by simp
qed (simp_all add: Publish_def Unpublish_def Archive_def)

theorem changeStatus_same_status_no_write_witness:
  "articleRepo_GetByID 1 demo_db = (Inr demo_article, demo_db\<lparr>calls := [ArticleGetByID 1]\<rparr>)
   \<and> AuthorID demo_article = 7 \<and> Status demo_article = StatusDraft
   \<and> Unpublish 5 1 7 demo_db = (Inr demo_article, demo_db\<lparr>calls := [ArticleGetByID 1]\<rparr>)
   \<and> articles (demo_db\<lparr>calls := [ArticleGetByID 1]\<rparr>) = articles demo_db"
proof -
  have g: "articleRepo_GetByID 1 demo_db = (Inr demo_article, demo_db\<lparr>calls := [ArticleGetByID 1]\<rparr>)"
    by (simp add: articleRepo_GetByID_def call_def demo_db_def demo_article_def)
  have a: "AuthorID demo_article = 7" "Status demo_article = StatusDraft"
    by (simp_all add: demo_article_def)
  show ?thesis
    using g a
      changeStatus_same_status_no_write [where i = 1 and d = demo_db and a = demo_article
        and ?d1.0 = "demo_db\<lparr>calls := [ArticleGetByID 1]\<rparr>" and authorID = 7
        and status = StatusDraft and now = 5]
    by simp
qed

section \<open>Unique slugs\<close>

lemma atoi_itoa: "atoi (itoa n) = n"
proof (induction n rule: itoa.induct)
  case (1 n)
  show ?case
  proof (cases "n < 10")
    case True
    then show ?thesis by (subst itoa.simps) (simp add: atoi_def)
  next
    case False
    then have "atoi (itoa (n div 10)) = n div 10" using 1 by simp
    then have "atoi (itoa (n div 10) @ [48 + n mod 10]) = 10 * (n div 10) + n mod 10"
      by (simp add: atoi_def)
    then show ?thesis using False by (subst itoa.simps) simp
  qed
qed

lemma itoa_inj: "itoa m = itoa n \<Longrightarrow> m = n"
  by (metis atoi_itoa)

lemma itoa_nonempty: "itoa n \<noteq> []"
  by (subst itoa.simps) simp

lemma candidate_inj: "candidate base j = candidate base k \<Longrightarrow> j = k"
  by (auto simp: candidate_def numbered_def itoa_nonempty dest: itoa_inj split: if_splits)

lemma taken_slugs_candidates: "taken_slugs base N = candidate base ` {0..N}"
proof -
  have split: "{0..N} = insert 0 {1..N}" by auto
  have "candidate base ` {1..N} = numbered base ` {1..N}"
    by (rule image_cong) (auto simp: candidate_def)
  then have "candidate base ` insert 0 {1..N} = insert base (numbered base ` {1..N})"
    by (simp only: image_insert) (simp add: candidate_def)
  then show ?thesis by (simp only: taken_slugs_def split)
qed

lemma candidate_taken: "candidate base k \<in> taken_slugs base N \<longleftrightarrow> k \<le> N"
  by (auto simp: taken_slugs_candidates dest: candidate_inj)

lemma candidate_Suc: "base @ dash # itoa (Suc k) = candidate base (Suc k)"
  by (simp add: candidate_def numbered_def)

lemma loop_finds_free:
  assumes fe: "finds_exactly get P (taken_slugs base N)" and N: "N \<le> 998"
  shows "P d \<Longrightarrow> k \<le> N + 1 \<Longrightarrow>
    fst (unique_slug_loop get base (candidate base k) (k + 1) d) = Inr (candidate base (N + 1))"
proof (induction "N + 1 - k" arbitrary: k d)
  case 0
  then have k: "k = N + 1" by simp
  obtain r d' where g: "get (candidate base k) d = (r, d')" by (cases "get (candidate base k) d")
  have "r = Inl ErrRecordNotFound"
    using fe "0.prems"(1) g k by (auto simp: finds_exactly_def candidate_taken dest!: spec [of _ "candidate base k"] spec [of _ d])
  then show ?case using g k by (subst unique_slug_loop.simps) simp
next
  case (Suc m)
  then have k: "k \<le> N" by simp
  obtain r d' where g: "get (candidate base k) d = (r, d')" by (cases "get (candidate base k) d")
  have "P d' \<and> (\<exists>x. r = Inr x)"
    using fe Suc.prems(1) g k by (auto simp: finds_exactly_def candidate_taken dest!: spec [of _ "candidate base k"] spec [of _ d])
  then obtain x where r: "r = Inr x" and P': "P d'" by auto
  have "fst (unique_slug_loop get base (candidate base (Suc k)) (Suc k + 1) d') = Inr (candidate base (N + 1))"
    using Suc.hyps(1) [of "Suc k" d'] Suc.hyps(2) P' k by simp
  moreover have "\<not> k + 1 + 1 > 1000" using k N by simp
  ultimately show ?case using g r
    by (subst unique_slug_loop.simps) (simp add: candidate_Suc del: unique_slug_loop.simps)
qed

lemma loop_exhausted:
  assumes fe: "finds_exactly get P (taken_slugs base N)" and N: "999 \<le> N"
  shows "P d \<Longrightarrow> k \<le> 999 \<Longrightarrow>
    fst (unique_slug_loop get base (candidate base k) (k + 1) d) = Inl (Err ''unable to generate unique slug'')"
proof (induction "999 - k" arbitrary: k d)
  case 0
  then have k: "k = 999" by simp
  obtain r d' where g: "get (candidate base k) d = (r, d')" by (cases "get (candidate base k) d")
  have "\<exists>x. r = Inr x"
    using fe "0.prems"(1) g k N by (auto simp: finds_exactly_def candidate_taken dest!: spec [of _ "candidate base k"] spec [of _ d])
  then show ?case using g k by (subst unique_slug_loop.simps) auto
next
  case (Suc m)
  then have k: "k \<le> 998" by simp
  obtain r d' where g: "get (candidate base k) d = (r, d')" by (cases "get (candidate base k) d")
  have "P d' \<and> (\<exists>x. r = Inr x)"
    using fe Suc.prems(1) g k N by (auto simp: finds_exactly_def candidate_taken dest!: spec [of _ "candidate base k"] spec [of _ d])
  then obtain x where r: "r = Inr x" and P': "P d'" by auto
  have "fst (unique_slug_loop get base (candidate base (Suc k)) (Suc k + 1) d') = Inl (Err ''unable to generate unique slug'')"
    using Suc.hyps(1) [of "Suc k" d'] Suc.hyps(2) P' k by simp
  moreover have "\<not> k + 1 + 1 > 1000" using k by simp
  ultimately show ?case using g r
    by (subst unique_slug_loop.simps) (simp add: candidate_Suc del: unique_slug_loop.simps)
qed


lemma call_no_fault: "faults d = [] \<Longrightarrow> call c d = (False, d\<lparr>calls := calls d @ [c]\<rparr>)"
  by (simp add: call_def)

lemma tag_lookup_exact:
  "finds_exactly tagRepo_GetBySlug (\<lambda>d. faults d = [] \<and> Tag_Slug ` set (tags d) = S) S"
  unfolding finds_exactly_def
proof (intro allI impI)
  fix s and d :: db
  assume P: "faults d = [] \<and> Tag_Slug ` set (tags d) = S"
  have "s \<in> S \<longleftrightarrow> find (\<lambda>t. Tag_Slug t = s) (tags d) \<noteq> None"
    using P by (auto simp: find_None_iff)
  then show "(faults (snd (tagRepo_GetBySlug s d)) = [] \<and>
        Tag_Slug ` set (tags (snd (tagRepo_GetBySlug s d))) = S) \<and>
       (if s \<in> S then \<exists>x. fst (tagRepo_GetBySlug s d) = Inr x
        else fst (tagRepo_GetBySlug s d) = Inl ErrRecordNotFound)"
    using P by (auto simp: tagRepo_GetBySlug_def call_no_fault split: option.splits)
qed

lemma article_lookup_exact:
  "finds_exactly articleRepo_GetBySlug
     (\<lambda>d. faults d = [] \<and> Slug ` {a \<in> set (articles d). DeletedAt a = None} = S) S"
  unfolding finds_exactly_def
proof (intro allI impI)
  fix s and d :: db
  assume P: "faults d = [] \<and> Slug ` {a \<in> set (articles d). DeletedAt a = None} = S"
  have "s \<in> S \<longleftrightarrow> find (\<lambda>a. Slug a = s \<and> DeletedAt a = None) (articles d) \<noteq> None"
    using P by (auto simp: find_None_iff)
  then show "(faults (snd (articleRepo_GetBySlug s d)) = [] \<and>
        Slug ` {a \<in> set (articles (snd (articleRepo_GetBySlug s d))). DeletedAt a = None} = S) \<and>
       (if s \<in> S then \<exists>x. fst (articleRepo_GetBySlug s d) = Inr x
        else fst (articleRepo_GetBySlug s d) = Inl ErrRecordNotFound)"
    using P by (auto simp: articleRepo_GetBySlug_def call_no_fault split: option.splits)
qed

lemma loop_result:
  assumes "finds_exactly get P (taken_slugs base N)" and "P d"
  shows "fst (unique_slug_loop get base base 1 d) =
     (if N \<le> 998 then Inr (numbered base (N + 1))
      else Inl (Err ''unable to generate unique slug''))"
proof (cases "N \<le> 998")
  case True
  then show ?thesis
    using loop_finds_free [OF assms(1) True assms(2), of 0] by (simp add: candidate_def)
next
  case False
  then have "999 \<le> N" by simp
  then show ?thesis
    using loop_exhausted [OF assms(1) _ assms(2), of 0] False by (simp add: candidate_def)
qed

lemma tag_slug_result:
  assumes "GenerateSlug tbl name = base" and "base \<noteq> []" and "faults d = []"
    and "Tag_Slug ` set (tags d) = taken_slugs base N"
  shows "fst (TagService_generateUniqueSlug tbl name d) =
     (if N \<le> 998 then Inr (numbered base (N + 1))
      else Inl (Err ''unable to generate unique slug''))"
  using assms loop_result [OF tag_lookup_exact, of d base N]
  by (simp add: TagService_generateUniqueSlug_def)

lemma article_slug_result:
  assumes "GenerateSlug tbl title = base" and "base \<noteq> []" and "faults d = []"
    and "Slug ` {a \<in> set (articles d). DeletedAt a = None} = taken_slugs base N"
  shows "fst (ArticleService_generateUniqueSlug tbl title d) =
     (if N \<le> 998 then Inr (numbered base (N + 1))
      else Inl (Err ''unable to generate unique slug''))"
  using assms loop_result [OF article_lookup_exact, of d base N]
  by (simp add: ArticleService_generateUniqueSlug_def)

lemma tag_store_slugs: "Tag_Slug ` set (tags (tag_store base N)) = taken_slugs base N"
proof -
  have "set [0..<N + 1] = {0..N}" by auto
  then show ?thesis
    by (simp only: tag_store_def db.simps set_map image_image Tag.simps taken_slugs_candidates)
qed

lemma article_store_slugs:
  "Slug ` {a \<in> set (articles (article_store base N)). DeletedAt a = None} = taken_slugs base N"
proof -
  have r: "set [0..<N + 1] = {0..N}" by auto
  have a: "set (articles (article_store base N))
        = (\<lambda>k. demo_article\<lparr>ID := k + 1, Slug := candidate base k\<rparr>) ` {0..N}"
    by (simp only: article_store_def db.simps set_map r)
  have "{a \<in> set (articles (article_store base N)). DeletedAt a = None}
        = set (articles (article_store base N))"
    unfolding a by (auto simp: demo_article_def)
  then show ?thesis unfolding a by (simp add: image_image taken_slugs_candidates)
qed

lemma GenerateSlug_go: "GenerateSlug (\<lambda>r. r) (str ''go'') = str ''go''"
  by (simp add: GenerateSlug_def str_def ToLower_def unicode_ToLower_def is_lower_alnum_def
      dash_def Trim_def TrimFunc_def)

text \<open>
  Claim C3, as amended. Let the base slug of a name be non-empty, let the repository
  not fail, and let the persisted slugs be exactly the base and its numbered variants
  \<^verbatim>\<open>base-1\<close> to \<^verbatim>\<open>base-N\<close>. Then unique-slug generation, in the tag service and in the
  article service, returns \<^verbatim>\<open>base-(N+1)\<close> when \<open>N \<le> 998\<close>, and fails with "unable to
  generate unique slug" when \<open>N \<ge> 999\<close>: the loop gives up once its counter passes 1000.
\<close>

theorem generateUniqueSlug_numbering:
  assumes "GenerateSlug tbl name = base" and "base \<noteq> []" and "faults d = []"
  shows "(Tag_Slug ` set (tags d) = taken_slugs base N \<longrightarrow>
            fst (TagService_generateUniqueSlug tbl name d) =
              (if N \<le> 998 then Inr (numbered base (N + 1))
               else Inl (Err ''unable to generate unique slug'')))
       \<and> (Slug ` {a \<in> set (articles d). DeletedAt a = None} = taken_slugs base N \<longrightarrow>
            fst (ArticleService_generateUniqueSlug tbl name d) =
              (if N \<le> 998 then Inr (numbered base (N + 1))
               else Inl (Err ''unable to generate unique slug'')))"
  using assms tag_slug_result [of tbl name base d N] article_slug_result [of tbl name base d N]
  by blast

theorem generateUniqueSlug_numbering_witness:
  "GenerateSlug (\<lambda>r. r) (str ''go'') = str ''go'' \<and> str ''go'' \<noteq> []
   \<and> faults (tag_store (str ''go'') 2) = []
   \<and> Tag_Slug ` set (tags (tag_store (str ''go'') 2)) = taken_slugs (str ''go'') 2
   \<and> fst (TagService_generateUniqueSlug (\<lambda>r. r) (str ''go'') (tag_store (str ''go'') 2))
       = Inr (str ''go-3'')
   \<and> fst (ArticleService_generateUniqueSlug (\<lambda>r. r) (str ''go'') (article_store (str ''go'') 0))
       = Inr (str ''go-1'')"
proof -
  have n1: "numbered (str ''go'') 1 = str ''go-1''"
    by (simp add: numbered_def str_def dash_def itoa.simps)
  have fa: "faults (article_store (str ''go'') 0) = []" by (simp add: article_store_def)
  have n: "numbered (str ''go'') 3 = str ''go-3''"
    by (simp add: numbered_def str_def dash_def itoa.simps)
  have f: "faults (tag_store (str ''go'') 2) = []" by (simp add: tag_store_def)
  have ne: "str ''go'' \<noteq> []" by (simp add: str_def)
  show ?thesis
    using GenerateSlug_go ne f tag_store_slugs [of "str ''go''" 2] n n1
      article_store_slugs [of "str ''go''" 0]
      generateUniqueSlug_numbering [OF GenerateSlug_go ne f, of 2]
      generateUniqueSlug_numbering [OF GenerateSlug_go ne fa, of 0]
    by simp
qed

text \<open>
  The claim as stated, for every \<open>N\<close>, fails at \<open>N = 999\<close>: with the slugs \<^verbatim>\<open>go\<close>,
  \<^verbatim>\<open>go-1\<close>, ..., \<^verbatim>\<open>go-999\<close> stored, the result is the error and not \<^verbatim>\<open>go-1000\<close>.
\<close>

theorem generateUniqueSlug_counterexample:
  "GenerateSlug (\<lambda>r. r) (str ''go'') = str ''go''
   \<and> faults (tag_store (str ''go'') 999) = []
   \<and> Tag_Slug ` set (tags (tag_store (str ''go'') 999)) = taken_slugs (str ''go'') 999
   \<and> fst (TagService_generateUniqueSlug (\<lambda>r. r) (str ''go'') (tag_store (str ''go'') 999))
       \<noteq> Inr (numbered (str ''go'') 1000)
   \<and> fst (TagService_generateUniqueSlug (\<lambda>r. r) (str ''go'') (tag_store (str ''go'') 999))
       = Inl (Err ''unable to generate unique slug'')"
proof -
  have f: "faults (tag_store (str ''go'') 999) = []" by (simp add: tag_store_def)
  have ne: "str ''go'' \<noteq> []" by (simp add: str_def)
  show ?thesis
    using GenerateSlug_go f tag_store_slugs [of "str ''go''" 999]
      tag_slug_result [OF GenerateSlug_go ne f tag_store_slugs]
    by simp
qed

section \<open>Tag batches\<close>













section \<open>Rankings\<close>

lemma swap_suffix:
  assumes "i < j" and "j < length xs"
  shows "take i (xs[i := a, j := b]) = take i xs"
    and "drop i (xs[i := a, j := b]) = (drop i xs)[0 := a, j - i := b]"
  using assms by (simp_all add: drop_update_swap)

lemma sort_inner_props:
  fixes key :: "'a \<Rightarrow> 'k::linorder"
  shows "n = length xs \<Longrightarrow> i < j \<Longrightarrow> j \<le> n \<Longrightarrow>
    \<forall>k. i < k \<and> k < j \<longrightarrow> key (xs ! k) \<le> key (xs ! i) \<Longrightarrow>
    length (sort_inner (\<lambda>x y. key x < key y) n i j xs) = n
    \<and> take i (sort_inner (\<lambda>x y. key x < key y) n i j xs) = take i xs
    \<and> mset (drop i (sort_inner (\<lambda>x y. key x < key y) n i j xs)) = mset (drop i xs)
    \<and> (\<forall>k. i < k \<and> k < n \<longrightarrow>
          key (sort_inner (\<lambda>x y. key x < key y) n i j xs ! k)
            \<le> key (sort_inner (\<lambda>x y. key x < key y) n i j xs ! i))"
proof (induction "\<lambda>x y. key x < key y" n i j xs rule: sort_inner.induct)
  case (1 n i j xs)
  show ?case
  proof (cases "j < n")
    case False
    then have "j = n" using "1.prems" by simp
    then show ?thesis using "1.prems" False by (subst (1 2 3 4 5) sort_inner.simps) simp
  next
    case True
    define xs' where "xs' = (if key (xs ! i) < key (xs ! j) then xs[i := xs ! j, j := xs ! i] else xs)"
    have len: "length xs' = length xs" by (simp add: xs'_def)
    have jl: "j < length xs" and il: "i < length xs" using True "1.prems" by simp_all
    have tk: "take i xs' = take i xs"
      using swap_suffix(1) [OF "1.prems"(2) jl] by (simp add: xs'_def)
    have ms: "mset (drop i xs') = mset (drop i xs)"
    proof (cases "key (xs ! i) < key (xs ! j)")
      case False
      then show ?thesis by (simp add: xs'_def)
    next
      case sw: True
      have d: "drop i xs' = (drop i xs)[0 := xs ! j, j - i := xs ! i]"
        using swap_suffix(2) [OF "1.prems"(2) jl] sw by (simp add: xs'_def)
      have "mset ((drop i xs)[j - i := drop i xs ! 0, 0 := drop i xs ! (j - i)]) = mset (drop i xs)"
        using jl il "1.prems"(2) by (intro mset_swap) simp_all
      moreover have "(drop i xs)[j - i := drop i xs ! 0, 0 := drop i xs ! (j - i)]
          = (drop i xs)[0 := xs ! j, j - i := xs ! i]"
        using jl il "1.prems"(2) by (simp add: list_update_swap)
      ultimately show ?thesis using d by simp
    qed
    have inv: "\<forall>k. i < k \<and> k < j + 1 \<longrightarrow> key (xs' ! k) \<le> key (xs' ! i)"
    proof (intro allI impI)
      fix k assume k: "i < k \<and> k < j + 1"
      show "key (xs' ! k) \<le> key (xs' ! i)"
      proof (cases "key (xs ! i) < key (xs ! j)")
        case False
        then have "xs' = xs" by (simp add: xs'_def)
        then show ?thesis using False k "1.prems"(4) by (cases "k = j") auto
      next
        case sw: True
        then have x': "xs' = xs[i := xs ! j, j := xs ! i]" by (simp add: xs'_def)
        have xi: "xs' ! i = xs ! j" using x' il jl "1.prems"(2) by simp
        show ?thesis
        proof (cases "k = j")
          case True
          then have "xs' ! k = xs ! i" using x' jl by simp
          then show ?thesis using xi sw by simp
        next
          case False
          then have "xs' ! k = xs ! k" using x' k by simp
          moreover have "key (xs ! k) \<le> key (xs ! i)" using "1.prems"(4) k False by simp
          ultimately show ?thesis using xi sw by simp
        qed
      qed
    qed
    have IH: "length (sort_inner (\<lambda>x y. key x < key y) n i (j + 1) xs') = n
      \<and> take i (sort_inner (\<lambda>x y. key x < key y) n i (j + 1) xs') = take i xs'
      \<and> mset (drop i (sort_inner (\<lambda>x y. key x < key y) n i (j + 1) xs')) = mset (drop i xs')
      \<and> (\<forall>k. i < k \<and> k < n \<longrightarrow>
            key (sort_inner (\<lambda>x y. key x < key y) n i (j + 1) xs' ! k)
              \<le> key (sort_inner (\<lambda>x y. key x < key y) n i (j + 1) xs' ! i))"
      using "1.hyps" [OF True] "1.prems" True len inv unfolding xs'_def by simp
    have step: "sort_inner (\<lambda>x y. key x < key y) n i j xs
        = sort_inner (\<lambda>x y. key x < key y) n i (j + 1) xs'"
      using True by (subst sort_inner.simps) (simp add: xs'_def)
    show ?thesis unfolding step using IH tk ms by simp
  qed
qed

lemma sort_outer_sorted:
  fixes key :: "'a \<Rightarrow> 'k::linorder"
  shows "n = length xs \<Longrightarrow> i \<le> n \<Longrightarrow>
    sorted_wrt (\<lambda>x y. key y \<le> key x) (take i xs) \<Longrightarrow>
    \<forall>x\<in>set (take i xs). \<forall>y\<in>set (drop i xs). key y \<le> key x \<Longrightarrow>
    sorted_wrt (\<lambda>x y. key y \<le> key x) (sort_outer (\<lambda>x y. key x < key y) n i xs)
    \<and> mset (sort_outer (\<lambda>x y. key x < key y) n i xs) = mset xs"
proof (induction "\<lambda>x y. key x < key y" n i xs rule: sort_outer.induct)
  case (1 n i xs)
  show ?case
  proof (cases "i + 1 < n")
    case False
    then have "length (drop i xs) \<le> 1" using "1.prems" by simp
    then have "sorted_wrt (\<lambda>x y. key y \<le> key x) (drop i xs)"
      by (cases "drop i xs") (auto simp: Suc_le_eq)
    then have "sorted_wrt (\<lambda>x y. key y \<le> key x) (take i xs @ drop i xs)"
      using "1.prems"(3,4) by (simp only: sorted_wrt_append)
    then show ?thesis using False by (subst (1 2) sort_outer.simps) simp
  next
    case True
    define ys where "ys = sort_inner (\<lambda>x y. key x < key y) n i (i + 1) xs"
    have p: "length ys = n \<and> take i ys = take i xs \<and> mset (drop i ys) = mset (drop i xs)
        \<and> (\<forall>k. i < k \<and> k < n \<longrightarrow> key (ys ! k) \<le> key (ys ! i))"
      unfolding ys_def using "1.prems"(1) True by (intro sort_inner_props) auto
    then have len: "length ys = n" and tk: "take i ys = take i xs"
      and ms: "mset (drop i ys) = mset (drop i xs)"
      and mx: "\<And>k. i < k \<Longrightarrow> k < n \<Longrightarrow> key (ys ! k) \<le> key (ys ! i)"
      by auto
    have sets: "set (drop i ys) = set (drop i xs)" using ms by (metis set_mset_mset)
    have il: "i < length ys" using True len by simp
    have t1: "take (i + 1) ys = take i xs @ [ys ! i]"
      using il tk by (simp add: take_Suc_conv_app_nth)
    have yin: "ys ! i \<in> set (drop i xs)"
      using il sets by (metis Cons_nth_drop_Suc list.set_intros(1))
    have s1: "sorted_wrt (\<lambda>x y. key y \<le> key x) (take (i + 1) ys)"
      unfolding t1 using "1.prems"(3,4) yin by (simp add: sorted_wrt_append)
    have d1: "set (drop (i + 1) ys) \<subseteq> set (drop i xs)"
      using sets by (metis set_drop_subset_set_drop le_add1)
    have b1: "\<forall>x\<in>set (take (i + 1) ys). \<forall>y\<in>set (drop (i + 1) ys). key y \<le> key x"
    proof (intro ballI)
      fix x y assume x: "x \<in> set (take (i + 1) ys)" and y: "y \<in> set (drop (i + 1) ys)"
      from y obtain k where k: "k < length ys - (i + 1)" "y = ys ! (i + 1 + k)"
        by (auto simp: in_set_conv_nth)
      show "key y \<le> key x"
      proof (cases "x = ys ! i")
        case True
        then show ?thesis using mx [of "i + 1 + k"] k len by simp
      next
        case False
        then have "x \<in> set (take i xs)" using x unfolding t1 by auto
        then show ?thesis using "1.prems"(4) y d1 by blast
      qed
    qed
    have "sorted_wrt (\<lambda>x y. key y \<le> key x) (sort_outer (\<lambda>x y. key x < key y) n (i + 1) ys)
        \<and> mset (sort_outer (\<lambda>x y. key x < key y) n (i + 1) ys) = mset ys"
      using "1.hyps" [OF True] len True s1 b1 unfolding ys_def by simp
    moreover have "mset ys = mset xs"
    proof -
      have "mset ys = mset (take i ys) + mset (drop i ys)"
        by (metis append_take_drop_id mset_append)
      also have "\<dots> = mset (take i xs) + mset (drop i xs)" using tk ms by simp
      also have "\<dots> = mset xs" by (metis append_take_drop_id mset_append)
      finally show ?thesis .
    qed
    moreover have "sort_outer (\<lambda>x y. key x < key y) n i xs
        = sort_outer (\<lambda>x y. key x < key y) n (i + 1) ys"
      using True by (subst sort_outer.simps) (simp add: ys_def)
    ultimately show ?thesis by simp
  qed
qed

lemma sort_desc_sorted:
  fixes key :: "'a \<Rightarrow> 'k::linorder"
  shows "sorted_wrt (\<lambda>x y. key y \<le> key x) (sort_desc (\<lambda>x y. key x < key y) xs)
    \<and> mset (sort_desc (\<lambda>x y. key x < key y) xs) = mset xs"
  unfolding sort_desc_def by (rule sort_outer_sorted) simp_all


lemma sort_desc_two: "sort_desc lt [x, y] = (if lt x y then [y, x] else [x, y])"
proof -
  have e: "sort_inner lt n i j zs = zs" if "\<not> j < n" for n i j and zs :: "'a list"
    using that by (subst sort_inner.simps) simp
  have i: "sort_inner lt 2 0 1 [x, y] = (if lt x y then [y, x] else [x, y])"
    by (subst sort_inner.simps) (simp add: e)
  have "sort_outer lt 2 0 [x, y] = sort_outer lt 2 1 (sort_inner lt 2 0 1 [x, y])"
    by (subst sort_outer.simps) simp
  also have "\<dots> = sort_inner lt 2 0 1 [x, y]"
    by (subst sort_outer.simps) simp
  finally have o: "sort_outer lt 2 0 [x, y] = sort_inner lt 2 0 1 [x, y]" .
  have "length [x, y] = 2" by simp
  then have "sort_desc lt [x, y] = sort_outer lt 2 0 [x, y]" by (simp only: sort_desc_def)
  then show ?thesis by (simp only: o i)
qed

lemma popular_score: "Popular_Score (popular_entry a) = weighted a"
  by (simp add: popular_entry_def)

text \<open>
  Claim C5. Whatever the upstream query returns, \<open>GetPopularArticles\<close> succeeds; every
  entry of its result is the entry of a fetched article with the score
  views * 1 + likes * 3 + comments * 5, and the result is ordered by descending score.
  An article with 10 views, 2 likes and 1 comment scores 21, one with 4 comments only
  scores 20, and when these two are fetched, in either order, the first is ranked above
  the second.
\<close>

theorem GetPopularArticles_scores:
  assumes "fetch 0 (int64 (page_limit limit0 * 2)) StatusPublished = Inr fetched"
  shows "\<exists>out. GetPopularArticles fetch limit0 = Inr out
    \<and> (\<forall>e\<in>set out. \<exists>a\<in>set fetched. e = popular_entry a
          \<and> Popular_Score e
              = of_nat (ViewCount a) * 1 + of_nat (LikeCount a) * 3 + of_nat (CommentCount a) * 5)
    \<and> sorted_wrt (\<lambda>x y. Popular_Score y \<le> Popular_Score x) out
    \<and> (\<forall>a b. ViewCount a = 10 \<and> LikeCount a = 2 \<and> CommentCount a = 1
              \<and> ViewCount b = 0 \<and> LikeCount b = 0 \<and> CommentCount b = 4 \<longrightarrow>
            Popular_Score (popular_entry a) = 21 \<and> Popular_Score (popular_entry b) = 20
            \<and> ((fetched = [b, a] \<or> fetched = [a, b]) \<and> 2 \<le> page_limit limit0 \<longrightarrow>
                 out = [popular_entry a, popular_entry b]))"
proof -
  define sorted_list where
    "sorted_list = sort_desc (\<lambda>x y. Popular_Score x < Popular_Score y) (map popular_entry fetched)"
  define out where
    "out = (if int (length sorted_list) > page_limit limit0
            then take (nat (page_limit limit0)) sorted_list else sorted_list)"
  have res: "GetPopularArticles fetch limit0 = Inr out"
    using assms by (simp add: GetPopularArticles_def page_limit_def out_def sorted_list_def Let_def)
  have srt: "sorted_wrt (\<lambda>x y. Popular_Score y \<le> Popular_Score x) sorted_list"
    and ms: "mset sorted_list = mset (map popular_entry fetched)"
    unfolding sorted_list_def using sort_desc_sorted [of Popular_Score "map popular_entry fetched"]
    by simp_all
  have sub: "set out \<subseteq> set sorted_list" by (auto simp: out_def dest: in_set_takeD)
  have "set sorted_list = popular_entry ` set fetched"
    using ms by (metis set_mset_mset set_map)
  then have mem: "\<forall>e\<in>set out. \<exists>a\<in>set fetched. e = popular_entry a
          \<and> Popular_Score e
              = of_nat (ViewCount a) * 1 + of_nat (LikeCount a) * 3 + of_nat (CommentCount a) * 5"
  proof (intro ballI)
    fix e assume "e \<in> set out"
    then have "e \<in> popular_entry ` set fetched" using sub \<open>set sorted_list = popular_entry ` set fetched\<close> by auto
    then obtain a where "a \<in> set fetched" "e = popular_entry a" by auto
    then show "\<exists>a\<in>set fetched. e = popular_entry a
          \<and> Popular_Score e
              = of_nat (ViewCount a) * 1 + of_nat (LikeCount a) * 3 + of_nat (CommentCount a) * 5"
      by (auto simp: popular_score weighted_def)
  qed
  have so: "sorted_wrt (\<lambda>x y. Popular_Score y \<le> Popular_Score x) out"
    using srt by (auto simp: out_def sorted_wrt_take)
  have ex: "Popular_Score (popular_entry a) = 21 \<and> Popular_Score (popular_entry b) = 20
            \<and> ((fetched = [b, a] \<or> fetched = [a, b]) \<and> 2 \<le> page_limit limit0 \<longrightarrow>
                 out = [popular_entry a, popular_entry b])"
    if c: "ViewCount a = 10 \<and> LikeCount a = 2 \<and> CommentCount a = 1
              \<and> ViewCount b = 0 \<and> LikeCount b = 0 \<and> CommentCount b = 4" for a b
  proof -
    have sa: "Popular_Score (popular_entry a) = 21" and sb: "Popular_Score (popular_entry b) = 20"
      using c by (simp_all add: popular_score weighted_def)
    have "sorted_list = [popular_entry a, popular_entry b]"
      if "fetched = [b, a] \<or> fetched = [a, b]"
      using that sa sb by (auto simp: sorted_list_def sort_desc_two)
    then show ?thesis using sa sb by (auto simp: out_def)
  qed
  show ?thesis using res mem so ex by blast
qed

theorem GetPopularArticles_scores_witness:
  "GetPopularArticles (\<lambda>offset limit status. Inr [discussed_article, viewed_article]) 0
     = Inr [popular_entry viewed_article, popular_entry discussed_article]
   \<and> Popular_Score (popular_entry viewed_article) = 21
   \<and> Popular_Score (popular_entry discussed_article) = 20"
proof -
  have c: "ViewCount viewed_article = 10 \<and> LikeCount viewed_article = 2
      \<and> CommentCount viewed_article = 1 \<and> ViewCount discussed_article = 0
      \<and> LikeCount discussed_article = 0 \<and> CommentCount discussed_article = 4"
    by (simp add: viewed_article_def discussed_article_def)
  have l: "2 \<le> page_limit 0" by (simp add: page_limit_def)
  show ?thesis
    using c l
      GetPopularArticles_scores [of "\<lambda>offset limit status. Inr [discussed_article, viewed_article]"
        0 "[discussed_article, viewed_article]"]
    by auto
qed













section \<open>Search\<close>

lemma TrimFunc_all: "\<forall>r\<in>set s. f r \<Longrightarrow> TrimFunc f s = []"
proof -
  assume "\<forall>r\<in>set s. f r"
  then have "dropWhile f s = []" by simp
  then show ?thesis by (simp add: TrimFunc_def del: dropWhile_eq_Nil_conv)
qed

lemma sanitizeQuery_empty:
  assumes "\<forall>r\<in>set q. \<not> re_word r \<and> \<not> kept_punctuation r"
  shows "sanitizeQuery q = []"
proof -
  let ?q1 = "TrimSpace q"
  let ?q2 = "ReplaceAllRuns re_space [32] ?q1"
  let ?q3 = "ReplaceAllRuns (\<lambda>r. \<not> allowed r) [32] ?q2"
  have 1: "set ?q1 \<subseteq> set q" by (simp add: TrimSpace_def set_TrimFunc)
  have 2: "set ?q2 \<subseteq> {r \<in> set ?q1. \<not> re_space r} \<union> {32}"
    using set_ReplaceAllRuns [of re_space "[32]" ?q1] by simp
  have 3: "set ?q3 \<subseteq> {r \<in> set ?q2. allowed r} \<union> {32}"
    using set_ReplaceAllRuns [of "\<lambda>r. \<not> allowed r" "[32]" ?q2] by simp
  have "r = 32" if "r \<in> set ?q3" for r
  proof (rule ccontr)
    assume n: "r \<noteq> 32"
    then have a: "r \<in> set ?q2" "allowed r" using that 3 by auto
    then have "r \<in> set q" "\<not> re_space r" using n 1 2 by auto
    then show False using assms a(2) by (auto simp: allowed_def)
  qed
  then have "\<forall>r\<in>set ?q3. is_space r" by (auto simp: is_space_def)
  then have "TrimSpace ?q3 = []" unfolding TrimSpace_def by (rule TrimFunc_all)
  then show ?thesis by (simp add: sanitizeQuery_def Let_def)
qed

lemma validateSearchRequest_result:
  "validateSearchRequest (Some req) = Inl e \<Longrightarrow> \<exists>msg. e = Err msg"
  "validateSearchRequest (Some req) = Inr r \<Longrightarrow> r = req"
  by (auto simp: validateSearchRequest_def split: if_splits option.splits)

text \<open>
  Claim C7, as amended. If the query of a search request holds no letter, digit or
  underscore and none of the punctuation characters that sanitization keeps
  (\<^verbatim>\<open>- . , ! ? : ; ( ) [ ] " '\<close>), then sanitization yields the empty string and
  \<open>Search\<close> rejects the request with a validation error; the store and the log of
  repository calls are unchanged, so nothing is delegated to the search engine.
\<close>

theorem Search_rejects_disallowed_only:
  assumes "\<forall>r\<in>set (Search_Query req). \<not> re_word r \<and> \<not> kept_punctuation r"
  shows "sanitizeQuery (Search_Query req) = []
    \<and> (\<exists>msg. Search tbl engine clock (Some req) page limit d = (Inl (Err msg), d))"
proof
  show s: "sanitizeQuery (Search_Query req) = []" using assms by (rule sanitizeQuery_empty)
  show "\<exists>msg. Search tbl engine clock (Some req) page limit d = (Inl (Err msg), d)"
  proof (cases "validateSearchRequest (Some req)")
    case (Inl e)
    then obtain msg where "e = Err msg" using validateSearchRequest_result(1) by blast
    then show ?thesis using Inl by (simp add: Search_def)
  next
    case (Inr r)
    then have "r = req" by (rule validateSearchRequest_result(2))
    then show ?thesis using Inr s by (simp add: Search_def)
  qed
qed

theorem Search_rejects_disallowed_only_witness:
  "sanitizeQuery (str ''@#$%'') = []
   \<and> (\<exists>msg. Search (\<lambda>r. r) no_results steady_clock (Some (query_request (str ''@#$%'') [])) 1 10
               demo_db = (Inl (Err msg), demo_db))"
proof -
  have h: "\<forall>r\<in>set (Search_Query (query_request (str ''@#$%'') [])).
             \<not> re_word r \<and> \<not> kept_punctuation r"
    by (simp add: query_request_def str_def re_word_def kept_punctuation_def)
  have q: "Search_Query (query_request (str ''@#$%'') []) = str ''@#$%''"
    by (simp add: query_request_def)
  show ?thesis
    using Search_rejects_disallowed_only [OF h, of "\<lambda>r. r" no_results steady_clock 1 10 demo_db]
    by (simp only: q)
qed

lemma sanitize_bangs: "sanitizeQuery (str ''!!!'') = str ''!!!''"
  by (simp add: sanitizeQuery_def TrimSpace_def TrimFunc_def is_space_def str_def re_space_def
      allowed_def re_word_def kept_punctuation_def Let_def)

text \<open>
  The claim as stated fails for punctuation that sanitization keeps: the query
  \<^verbatim>\<open>!!!\<close> has no letter or digit, is left as it is, and the request is delegated to
  the engine.
\<close>

theorem Search_punctuation_counterexample:
  "list_all (\<lambda>r. \<not> re_word r) (str ''!!!'')
   \<and> sanitizeQuery (str ''!!!'') = str ''!!!''
   \<and> Search (\<lambda>r. r) no_results steady_clock (Some (query_request (str ''!!!'') [])) 1 10 demo_db
       = (Inr (Search_respond (\<lambda>r. r) steady_clock (query_request (str ''!!!'') []) (str ''!!!'')
                 1 10 ([], 0)),
          demo_db\<lparr>calls := [ArticleAdvancedSearch (str ''!!!'')]\<rparr>)"
proof -
  have v: "validateSearchRequest (Some (query_request (str ''!!!'') []))
      = Inr (query_request (str ''!!!'') [])"
    by (simp add: validateSearchRequest_def query_request_def TrimSpace_def TrimFunc_def
        is_space_def str_def len_def utf8_width_def)
  have q: "Search_Query (query_request (str ''!!!'') []) = str ''!!!''"
    "Search_SearchMode (query_request (str ''!!!'') []) = []"
    by (simp_all add: query_request_def)
  have ne: "str ''!!!'' \<noteq> []" "[] \<noteq> str ''boolean''" by (simp_all add: str_def)
  have w: "list_all (\<lambda>r. \<not> re_word r) (str ''!!!'')" by (simp add: str_def re_word_def)
  have "Search (\<lambda>r. r) no_results steady_clock (Some (query_request (str ''!!!'') [])) 1 10 demo_db
       = (Inr (Search_respond (\<lambda>r. r) steady_clock (query_request (str ''!!!'') []) (str ''!!!'')
                 1 10 ([], 0)),
          demo_db\<lparr>calls := [ArticleAdvancedSearch (str ''!!!'')]\<rparr>)"
    using ne
    by (simp add: Search_def v q sanitize_bangs articleRepo_AdvancedSearch_def call_def
        demo_db_def no_results_def int64_def Let_def)
  then show ?thesis using w sanitize_bangs by simp
qed

lemma sanitize_parens: "sanitizeQuery (str ''(a)(b)'') = str ''(a)(b)''"
  by (simp add: sanitizeQuery_def TrimSpace_def TrimFunc_def is_space_def str_def re_space_def
      allowed_def re_word_def kept_punctuation_def Let_def)

lemma prepare_parens: "prepareBooleanQuery (str ''(a)(b)'') = str ''a)(b''"
  by (simp add: prepareBooleanQuery_def Fields_def is_space_def str_def Trim_def TrimFunc_def
      boolean_operators_def Let_def)

lemma booleanTerms_trimmed:
  "w \<in> set (booleanTerms_loop words) \<Longrightarrow>
   w \<noteq> [] \<and> hd w \<notin> set boolean_operators \<and> last w \<notin> set boolean_operators"
proof (induction words)
  case Nil
  then show ?case by simp
next
  case (Cons word rest)
  let ?t = "Trim word boolean_operators"
  show ?case
  proof (cases "w \<in> set (booleanTerms_loop rest)")
    case True
    then show ?thesis by (rule Cons.IH)
  next
    case False
    then have w: "w = ?t" "?t \<noteq> []" using Cons.prems by (auto simp: Let_def split: if_splits)
    then show ?thesis
      using TrimFunc_ends [of "\<lambda>r. r \<in> set boolean_operators" word] by (simp add: Trim_def)
  qed
qed

text \<open>
  Claim C8 at a failing input. The query \<^verbatim>\<open>(a)(b)\<close> passes sanitization unchanged; in
  boolean mode \<open>prepareBooleanQuery\<close> trims the operator characters at the two ends of
  its single token only, and the query submitted to the engine is \<^verbatim>\<open>a)(b\<close>, one token
  that still holds the operators \<^verbatim>\<open>)\<close> and \<^verbatim>\<open>(\<close>.
\<close>

theorem prepareBooleanQuery_keeps_inner_operators:
  "sanitizeQuery (str ''(a)(b)'') = str ''(a)(b)''
   \<and> prepareBooleanQuery (str ''(a)(b)'') = str ''a)(b''
   \<and> Fields (str ''a)(b'') = [str ''a)(b'']
   \<and> set (str ''a)(b'') \<inter> set boolean_operators = {40, 41}
   \<and> calls (snd (Search (\<lambda>r. r) no_results steady_clock
                (Some (query_request (str ''(a)(b)'') (str ''boolean''))) 1 10 demo_db))
       = [ArticleSearchWithBoolean (str ''a)(b'')]"
proof -
  have v: "validateSearchRequest (Some (query_request (str ''(a)(b)'') (str ''boolean'')))
      = Inr (query_request (str ''(a)(b)'') (str ''boolean''))"
    by (simp add: validateSearchRequest_def query_request_def TrimSpace_def TrimFunc_def
        is_space_def str_def len_def utf8_width_def)
  have q: "Search_Query (query_request (str ''(a)(b)'') (str ''boolean'')) = str ''(a)(b)''"
    "Search_SearchMode (query_request (str ''(a)(b)'') (str ''boolean'')) = str ''boolean''"
    by (simp_all add: query_request_def)
  have ne: "str ''(a)(b)'' \<noteq> []" by (simp add: str_def)
  have c: "calls (snd (Search (\<lambda>r. r) no_results steady_clock
                (Some (query_request (str ''(a)(b)'') (str ''boolean''))) 1 10 demo_db))
       = [ArticleSearchWithBoolean (str ''a)(b'')]"
    using ne
    by (simp add: Search_def v q sanitize_parens prepare_parens articleRepo_SearchWithBoolean_def
        call_def demo_db_def no_results_def int64_def Let_def)
  have f: "Fields (str ''a)(b'') = [str ''a)(b'']"
    by (simp add: Fields_def is_space_def str_def)
  have o: "set (str ''a)(b'') \<inter> set boolean_operators = {40, 41}"
    by (auto simp: str_def boolean_operators_def)
  show ?thesis using sanitize_parens prepare_parens f o c by simp
qed

end
